theory Spec2Isabelle
  imports Complex_Main "HOL-Library.Sublist"
begin

section \<open>Python values\<close>

text \<open>
  A Python \<open>str\<close> is a sequence of Unicode code points: \<open>len\<close>, slicing and the
  regular expressions of \<open>final.py\<close> all count code points, so a string is a list of
  code-point numbers. \<open>lit\<close> embeds an ASCII literal of the source.
\<close>

type_synonym codepoint = nat
type_synonym pystr = "codepoint list"

definition lit :: "string \<Rightarrow> pystr" where
  "lit s = map of_char s"

text \<open>
  The values the program handles: what \<open>json()\<close> decodes, what a table cell holds
  and what a caller may pass. A dictionary is its items in insertion order (keys are
  distinct); a float is named by its \<open>repr\<close>, which covers \<open>nan\<close>.
\<close>

datatype pyval =
    PNone
  | PBool bool
  | PInt int
  | PFloat pystr
  | PStr pystr
  | PList "pyval list"
  | PDict "(pystr \<times> pyval) list"

datatype py_error = AttributeError | TypeError | KeyError | ValueError | OSError

section \<open>Text cleaning: \<open>clean_text\<close>\<close>

text \<open>
  The character class of the first substitution:
  U+201C, U+201D, the double quote, the apostrophe, full stop, comma, \<open>!\<close> and \<open>?\<close>.
\<close>

definition is_punct :: "codepoint \<Rightarrow> bool" where
  "is_punct c \<longleftrightarrow> c \<in> {0x201C, 0x201D, 0x22, 0x27, 0x2E, 0x2C, 0x21, 0x3F}"

text \<open>
  Whitespace as CPython decides it for \<open>str\<close>: the pattern \<open>\s\<close> and
  \<open>str.strip()\<close> use the same test.
\<close>

definition isspace :: "codepoint \<Rightarrow> bool" where
  "isspace c \<longleftrightarrow>
     (0x09 \<le> c \<and> c \<le> 0x0D) \<or> (0x1C \<le> c \<and> c \<le> 0x20) \<or> c = 0x85 \<or> c = 0xA0 \<or>
     c = 0x1680 \<or> (0x2000 \<le> c \<and> c \<le> 0x200A) \<or> c = 0x2028 \<or> c = 0x2029 \<or>
     c = 0x202F \<or> c = 0x205F \<or> c = 0x3000"

text \<open>\<open>re.sub(r'\s+', ' ', s)\<close>: every maximal whitespace run becomes one space.\<close>

function collapse_ws :: "pystr \<Rightarrow> pystr" where
  "collapse_ws [] = []"
| "collapse_ws (c # s) =
     (if isspace c then 0x20 # collapse_ws (dropWhile isspace s) else c # collapse_ws s)"
  by pat_completeness auto
termination
  by (relation "measure length") (auto simp: length_dropWhile_le less_Suc_eq_le)

text \<open>\<open>s.strip()\<close>\<close>

definition strip :: "pystr \<Rightarrow> pystr" where
  "strip s = rev (dropWhile isspace (rev (dropWhile isspace s)))"

text \<open>
  \<open>re.sub(pattern, repl, text)\<close> raises \<open>TypeError\<close> unless \<open>text\<close> is a string;
  \<open>f\<close> is what the substitution does to a string.
\<close>

definition re_sub :: "(pystr \<Rightarrow> pystr) \<Rightarrow> pyval \<Rightarrow> py_error + pystr" where
  "re_sub f text = (case text of PStr s \<Rightarrow> Inr (f s) | _ \<Rightarrow> Inl TypeError)"

definition isinstance_str :: "pyval \<Rightarrow> bool" where
  "isinstance_str v = (case v of PStr _ \<Rightarrow> True | _ \<Rightarrow> False)"

definition clean_text :: "pyval \<Rightarrow> py_error + pystr" where
  "clean_text text =
     (if \<not> isinstance_str text then Inr []
      else case re_sub (filter (\<lambda>c. \<not> is_punct c)) text of
             Inl e \<Rightarrow> Inl e
           | Inr t1 \<Rightarrow>
               (case re_sub collapse_ws (PStr t1) of
                  Inl e \<Rightarrow> Inl e
                | Inr t2 \<Rightarrow> Inr (take 250 (strip t2))))"

text \<open>
  What the spec calls an already-normalized string: no stripped punctuation, no leading
  or trailing whitespace, and whitespace only as single spaces (U+0020).
\<close>

fun single_spaced :: "pystr \<Rightarrow> bool" where
  "single_spaced [] \<longleftrightarrow> True"
| "single_spaced [c] \<longleftrightarrow> (isspace c \<longrightarrow> c = 0x20)"
| "single_spaced (c # d # s) \<longleftrightarrow>
     (isspace c \<longrightarrow> c = 0x20 \<and> \<not> isspace d) \<and> single_spaced (d # s)"

definition normalized :: "pystr \<Rightarrow> bool" where
  "normalized s \<longleftrightarrow>
     length s \<le> 250 \<and> (\<forall>c \<in> set s. \<not> is_punct c) \<and>
     (s \<noteq> [] \<longrightarrow> \<not> isspace (hd s) \<and> \<not> isspace (last s)) \<and> single_spaced s"

section \<open>Fact-check lookup: \<open>get_fact_check_result\<close>\<close>

text \<open>Sequencing of statements that may raise: the first exception ends the run.\<close>

definition and_then :: "'e + 'a \<Rightarrow> ('a \<Rightarrow> 'e + 'b) \<Rightarrow> 'e + 'b" where
  "and_then m f = (case m of Inl e \<Rightarrow> Inl e | Inr x \<Rightarrow> f x)"

text \<open>\<open>d.get(key, default)\<close>: only a dictionary has the method.\<close>

definition dict_get :: "pyval \<Rightarrow> pystr \<Rightarrow> pyval \<Rightarrow> py_error + pyval" where
  "dict_get d k dflt =
     (case d of
        PDict kvs \<Rightarrow> Inr (case map_of kvs k of Some v \<Rightarrow> v | None \<Rightarrow> dflt)
      | _ \<Rightarrow> Inl AttributeError)"

text \<open>
  \<open>for x in v\<close>: a list gives its elements, a string its characters, a dictionary
  its keys; nothing else that \<open>json()\<close> decodes is iterable.
\<close>

definition py_iter :: "pyval \<Rightarrow> py_error + pyval list" where
  "py_iter v =
     (case v of
        PList xs \<Rightarrow> Inr xs
      | PStr s \<Rightarrow> Inr (map (\<lambda>c. PStr [c]) s)
      | PDict kvs \<Rightarrow> Inr (map (\<lambda>kv. PStr (fst kv)) kvs)
      | _ \<Rightarrow> Inl TypeError)"

text \<open>
  \<open>v.lower()\<close>. An ASCII code point is lower-cased by the ASCII rule. For the other
  code points Python consults the Unicode tables, which are not part of the program:
  \<open>ul s i\<close> stands for what they give for position \<open>i\<close> of \<open>s\<close> (possibly several
  code points, possibly depending on the neighbours).
\<close>

type_synonym unicode_lower = "pystr \<Rightarrow> nat \<Rightarrow> pystr"

definition ascii_lower :: "codepoint \<Rightarrow> codepoint" where
  "ascii_lower c = (if 0x41 \<le> c \<and> c \<le> 0x5A then c + 0x20 else c)"

definition lower_str :: "unicode_lower \<Rightarrow> pystr \<Rightarrow> pystr" where
  "lower_str ul s =
     concat (map (\<lambda>i. if s ! i < 0x80 then [ascii_lower (s ! i)] else ul s i) [0..<length s])"

definition lower :: "unicode_lower \<Rightarrow> pyval \<Rightarrow> py_error + pystr" where
  "lower ul v = (case v of PStr s \<Rightarrow> Inr (lower_str ul s) | _ \<Rightarrow> Inl AttributeError)"

text \<open>\<open>any(k in rating_text for k in keys)\<close>\<close>

definition any_in :: "pystr list \<Rightarrow> pystr \<Rightarrow> bool" where
  "any_in keys rating_text = list_ex (\<lambda>k. sublist k rating_text) keys"

definition false_keys :: "pystr list" where
  "false_keys = [lit ''false'', lit ''misleading'', lit ''pants'']"

definition true_keys :: "pystr list" where
  "true_keys = [lit ''true'', lit ''accurate'', lit ''correct'', lit ''mostly true'']"

record result =
  verdict :: pystr
  publisher :: pyval
  rating :: pyval
  url :: pyval

text \<open>
  The body of the inner loop for one review: \<open>Some r\<close> is \<open>return r\<close>, \<open>None\<close> goes
  on to the next review.
\<close>

definition check_review :: "unicode_lower \<Rightarrow> pyval \<Rightarrow> py_error + result option" where
  "check_review ul review =
     and_then (dict_get review (lit ''textualRating'') (PStr [])) (\<lambda>tr.
     and_then (lower ul tr) (\<lambda>rating_text.
     and_then (dict_get review (lit ''publisher'') (PDict [])) (\<lambda>p.
     and_then (dict_get p (lit ''name'') (PStr (lit ''Unknown''))) (\<lambda>publisher.
     and_then (dict_get review (lit ''url'') (PStr [])) (\<lambda>url.
       if any_in false_keys rating_text then
         Inr (Some \<lparr>verdict = lit ''False'', publisher = publisher,
                    rating = PStr rating_text, url = url\<rparr>)
       else if any_in true_keys rating_text then
         Inr (Some \<lparr>verdict = lit ''True'', publisher = publisher,
                    rating = PStr rating_text, url = url\<rparr>)
       else Inr None)))))"

fun scan_reviews :: "unicode_lower \<Rightarrow> pyval list \<Rightarrow> py_error + result option" where
  "scan_reviews ul [] = Inr None"
| "scan_reviews ul (review # rest) =
     and_then (check_review ul review) (\<lambda>r.
       case r of Some res \<Rightarrow> Inr (Some res) | None \<Rightarrow> scan_reviews ul rest)"

fun scan_claims :: "unicode_lower \<Rightarrow> pyval list \<Rightarrow> py_error + result option" where
  "scan_claims ul [] = Inr None"
| "scan_claims ul (claim # rest) =
     and_then (dict_get claim (lit ''claimReview'') (PList [])) (\<lambda>rs.
     and_then (py_iter rs) (\<lambda>reviews.
     and_then (scan_reviews ul reviews) (\<lambda>r.
       case r of Some res \<Rightarrow> Inr (Some res) | None \<Rightarrow> scan_claims ul rest)))"

text \<open>
  What the \<open>try\<close> block's request gives for a query: a \<open>requests.RequestException\<close>
  (a transport failure, the \<open>HTTPError\<close> that \<open>raise_for_status\<close> raises for an error
  status, or a body that is not JSON) with its \<open>str(e)\<close>, or the decoded body.
\<close>

datatype api_reply = RequestException pystr | Json pyval

text \<open>\<open>not FACT_API_KEY\<close> holds for an unset variable and for an empty one.\<close>

definition key_missing :: "pystr option \<Rightarrow> bool" where
  "key_missing k = (case k of None \<Rightarrow> True | Some s \<Rightarrow> s = [])"

text \<open>
  The body of \<open>get_fact_check_result\<close>, lines 38 to 66: what one execution of the
  function computes. The program calls it through the decorator of line 37, which is
  \<open>get_fact_check_result_cached\<close> below.
\<close>

definition get_fact_check_result ::
  "pystr option \<Rightarrow> unicode_lower \<Rightarrow> (pystr \<Rightarrow> api_reply) \<Rightarrow> pyval \<Rightarrow> py_error + result" where
  "get_fact_check_result FACT_API_KEY ul api statement =
     (if key_missing FACT_API_KEY then
        Inr \<lparr>verdict = lit ''API Key Missing'', publisher = PNone, rating = PNone, url = PNone\<rparr>
      else
        and_then (clean_text statement) (\<lambda>query.
          if query = [] then
            Inr \<lparr>verdict = lit ''Unverified'', publisher = PNone, rating = PNone, url = PNone\<rparr>
          else
            (case api query of
               RequestException e \<Rightarrow>
                 Inr \<lparr>verdict = lit ''API Error'', publisher = PNone, rating = PStr e, url = PNone\<rparr>
             | Json body \<Rightarrow>
                 and_then (dict_get body (lit ''claims'') (PList [])) (\<lambda>data.
                 and_then (py_iter data) (\<lambda>claims.
                 and_then (scan_claims ul claims) (\<lambda>r.
                   case r of
                     Some res \<Rightarrow> Inr res
                   | None \<Rightarrow>
                       Inr \<lparr>verdict = lit ''Unverified'', publisher = PNone,
                            rating = PNone, url = PNone\<rparr>))))))"

subsection \<open>The decorator \<open>st.cache_data(ttl=CACHE_TTL)\<close>\<close>

text \<open>
  The decorated function keeps, for each argument it was called with, the value the body
  returned and the time (in seconds) of that call. A call whose argument has an entry
  younger than the time to live is answered with the stored value, and the body does not
  run: the credential, the query and the API are not looked at. Any other call runs the
  body and stores what it returns; an exception is passed on and not stored.
\<close>

definition CACHE_TTL :: nat where
  "CACHE_TTL = 24 * 60 * 60"

type_synonym cache = "pyval \<Rightarrow> (result \<times> nat) option"

definition cache_hit :: "nat \<Rightarrow> nat \<Rightarrow> cache \<Rightarrow> pyval \<Rightarrow> result option" where
  "cache_hit ttl now c x =
     (case c x of
        None \<Rightarrow> None
      | Some (r, stored) \<Rightarrow> if now < stored + ttl then Some r else None)"

definition cache_data ::
  "nat \<Rightarrow> (pyval \<Rightarrow> py_error + result) \<Rightarrow> nat \<Rightarrow> cache \<Rightarrow> pyval \<Rightarrow> (py_error + result) \<times> cache" where
  "cache_data ttl f now c x =
     (case cache_hit ttl now c x of
        Some r \<Rightarrow> (Inr r, c)
      | None \<Rightarrow>
          (case f x of
             Inl e \<Rightarrow> (Inl e, c)
           | Inr r \<Rightarrow> (Inr r, c(x \<mapsto> (r, now)))))"

text \<open>
  The function as the program calls it, at time \<open>now\<close> with the cache \<open>c\<close>; the
  credential is the one configured at the time of the call.
\<close>

definition get_fact_check_result_cached ::
  "pystr option \<Rightarrow> unicode_lower \<Rightarrow> (pystr \<Rightarrow> api_reply) \<Rightarrow> nat \<Rightarrow> cache \<Rightarrow> pyval \<Rightarrow>
     (py_error + result) \<times> cache" where
  "get_fact_check_result_cached FACT_API_KEY ul api now c statement =
     cache_data CACHE_TTL (get_fact_check_result FACT_API_KEY ul api) now c statement"

subsection \<open>The first-match policy, as the specification words it\<close>

text \<open>
  A response as the search API documents it: an object whose \<open>claims\<close>, when present,
  is a list of objects; the \<open>claimReview\<close> of each, when present, is a list of objects;
  in each review \<open>textualRating\<close>, when present, is a string and \<open>publisher\<close>, when
  present, is an object.
\<close>

definition is_dict :: "pyval \<Rightarrow> bool" where
  "is_dict v = (case v of PDict _ \<Rightarrow> True | _ \<Rightarrow> False)"

definition is_list :: "pyval \<Rightarrow> bool" where
  "is_list v = (case v of PList _ \<Rightarrow> True | _ \<Rightarrow> False)"

definition elements :: "pyval \<Rightarrow> pyval list" where
  "elements v = (case v of PList xs \<Rightarrow> xs | _ \<Rightarrow> [])"

definition wf_review :: "pyval \<Rightarrow> bool" where
  "wf_review r =
     (case r of
        PDict kvs \<Rightarrow>
          (case map_of kvs (lit ''textualRating'') of None \<Rightarrow> True | Some v \<Rightarrow> isinstance_str v) \<and>
          (case map_of kvs (lit ''publisher'') of None \<Rightarrow> True | Some p \<Rightarrow> is_dict p)
      | _ \<Rightarrow> False)"

definition wf_claim :: "pyval \<Rightarrow> bool" where
  "wf_claim c =
     (case c of
        PDict kvs \<Rightarrow>
          (case map_of kvs (lit ''claimReview'') of None \<Rightarrow> True
           | Some v \<Rightarrow> is_list v \<and> list_all wf_review (elements v))
      | _ \<Rightarrow> False)"

definition wf_response :: "pyval \<Rightarrow> bool" where
  "wf_response body =
     (case body of
        PDict kvs \<Rightarrow>
          (case map_of kvs (lit ''claims'') of None \<Rightarrow> True
           | Some v \<Rightarrow> is_list v \<and> list_all wf_claim (elements v))
      | _ \<Rightarrow> False)"

text \<open>The fields of an object, with the defaults of the source.\<close>

definition field :: "pyval \<Rightarrow> pystr \<Rightarrow> pyval \<Rightarrow> pyval" where
  "field d k dflt = (case d of PDict kvs \<Rightarrow> (case map_of kvs k of Some v \<Rightarrow> v | None \<Rightarrow> dflt) | _ \<Rightarrow> dflt)"

text \<open>All reviews of a response, claim by claim, in the order the API gave them.\<close>

definition all_reviews :: "pyval \<Rightarrow> pyval list" where
  "all_reviews body =
     concat (map (\<lambda>c. elements (field c (lit ''claimReview'') (PList [])))
                 (elements (field body (lit ''claims'') (PList []))))"

definition rating_of :: "unicode_lower \<Rightarrow> pyval \<Rightarrow> pystr" where
  "rating_of ul review =
     (case field review (lit ''textualRating'') (PStr []) of PStr s \<Rightarrow> lower_str ul s | _ \<Rightarrow> [])"

definition publisher_of :: "pyval \<Rightarrow> pyval" where
  "publisher_of review =
     field (field review (lit ''publisher'') (PDict [])) (lit ''name'') (PStr (lit ''Unknown''))"

definition review_matches :: "unicode_lower \<Rightarrow> pyval \<Rightarrow> bool" where
  "review_matches ul r \<longleftrightarrow>
     any_in false_keys (rating_of ul r) \<or> any_in true_keys (rating_of ul r)"

definition answer :: "unicode_lower \<Rightarrow> pyval \<Rightarrow> result" where
  "answer ul r =
     \<lparr>verdict = (if any_in false_keys (rating_of ul r) then lit ''False'' else lit ''True''),
      publisher = publisher_of r, rating = PStr (rating_of ul r),
      url = field r (lit ''url'') (PStr [])\<rparr>"

definition first_match_spec :: "unicode_lower \<Rightarrow> pyval \<Rightarrow> result" where
  "first_match_spec ul body =
     (case find (review_matches ul) (all_reviews body) of
        None \<Rightarrow> \<lparr>verdict = lit ''Unverified'', publisher = PNone, rating = PNone, url = PNone\<rparr>
      | Some r \<Rightarrow> answer ul r)"

section \<open>Claim collection: \<open>scrape_politifact\<close>\<close>

text \<open>
  The HTML parser, the regular expressions and \<open>pd.to_datetime\<close> are library code. A
  listing item (a card, one \<open>li.o-listicle__item\<close>) is modelled by what the extraction
  expressions of the loop body evaluate to on it; the control flow on these values is the
  program's.

  \<^item> \<open>stated\<close>: lines 95 to 106. \<open>No_Date_Block\<close>: there is no
    \<open>div.m-statement__desc\<close>; \<open>No_Stated_On\<close>: its text has no match of the
    \<open>stated on ...\<close> pattern; \<open>Unparseable\<close>: \<open>pd.to_datetime\<close> raises
    \<open>ValueError\<close> on the matched text; \<open>Stated_On d\<close>: the parsed timestamp.
  \<^item> \<open>statement_tag\<close>, \<open>source_tag\<close>: the stripped text of the quote link and of the
    source link, \<open>None\<close> when the element is missing.
  \<^item> \<open>footer_tag\<close>: \<open>No_Footer\<close>: there is no \<open>footer.m-statement__footer\<close>;
    \<open>Footer_No_By\<close>: its text has no match of \<open>By\s+([^\<bullet>]+)\<close>, so \<open>re.search\<close>
    returns \<open>None\<close>; \<open>Footer_By g\<close>: group 1 of the match.
  \<^item> \<open>label_img\<close>: the title-cased \<open>alt\<close> text of the first image that has one.
\<close>

type_synonym timestamp = int

datatype stated_on = No_Date_Block | No_Stated_On | Unparseable | Stated_On timestamp

datatype footer = No_Footer | Footer_No_By | Footer_By pystr

record card =
  stated :: stated_on
  statement_tag :: "pystr option"
  source_tag :: "pystr option"
  footer_tag :: footer
  label_img :: "pystr option"

text \<open>A row handed to \<open>writer.writerow\<close>; the date is written as \<open>%Y-%m-%d\<close>.\<close>

record row =
  author :: "pystr option"
  statement :: pystr
  source :: "pystr option"
  date :: timestamp
  label :: "pystr option"

text \<open>
  The \<open>Next\<close> control of a page: the link may lack the \<open>href\<close> attribute that
  \<open>next_btn["href"]\<close> reads; otherwise it carries the URL that \<open>urljoin\<close> resolves.
\<close>

datatype next_link = No_Href | Href pystr

record page =
  cards :: "card list"
  next_btn :: "next_link option"

text \<open>
  The \<open>try\<close> block of a page fetch: any exception (transport, status, parser) ends
  the pagination. A site is what it answers to the \<open>n\<close>-th request, for a URL.
\<close>

datatype fetch_result = Fetch_Failed | Page page

type_synonym site = "nat \<Rightarrow> pystr \<Rightarrow> fetch_result"

text \<open>
  The variables of the function: \<open>rows\<close> is what has been written to the buffer after
  the header (\<open>total_rows\<close> is its length), and \<open>requested\<close> records the URLs passed to
  \<open>session.get\<close>, one per increment of \<open>page_count\<close>.
\<close>

record scrape_state =
  next_page :: "pystr option"
  page_count :: nat
  rows :: "row list"
  requested :: "pystr list"

definition base_url :: pystr where
  "base_url = lit ''https://www.politifact.com/factchecks/list/''"

text \<open>What one pass of the \<open>for card\<close> body does.\<close>

datatype step = Skip | Break | Emit row | Raise py_error

definition process_card :: "timestamp \<Rightarrow> timestamp \<Rightarrow> card \<Rightarrow> step" where
  "process_card start_date end_date c =
     (case stated c of
        No_Date_Block \<Rightarrow> Skip
      | No_Stated_On \<Rightarrow> Skip
      | Unparseable \<Rightarrow> Skip
      | Stated_On claim_date \<Rightarrow>
          if claim_date < start_date then Break
          else if \<not> (start_date \<le> claim_date \<and> claim_date \<le> end_date) then Skip
          else
            (case footer_tag c of
               Footer_No_By \<Rightarrow> Raise AttributeError
             | ft \<Rightarrow>
                 (let author = (case ft of Footer_By g \<Rightarrow> Some (strip g) | _ \<Rightarrow> None) in
                  case statement_tag c of
                    None \<Rightarrow> Skip
                  | Some text \<Rightarrow>
                      if text = [] then Skip
                      else Emit \<lparr>author = author, statement = text, source = source_tag c,
                                  date = claim_date, label = label_img c\<rparr>)))"

text \<open>
  The \<open>for card\<close> loop of one page. \<open>Break\<close> is lines 109 and 110: it assigns
  \<open>next_page = None\<close> and leaves this loop only.
\<close>

fun scan_cards ::
  "timestamp \<Rightarrow> timestamp \<Rightarrow> card list \<Rightarrow> scrape_state \<Rightarrow> py_error + scrape_state" where
  "scan_cards start_date end_date [] st = Inr st"
| "scan_cards start_date end_date (c # cs) st =
     (case process_card start_date end_date c of
        Skip \<Rightarrow> scan_cards start_date end_date cs st
      | Break \<Rightarrow> Inr (st\<lparr>next_page := None\<rparr>)
      | Emit r \<Rightarrow> scan_cards start_date end_date cs (st\<lparr>rows := rows st @ [r]\<rparr>)
      | Raise e \<Rightarrow> Inl e)"

text \<open>
  The \<open>while\<close> loop. After the \<open>for\<close> loop, however it ended, lines 127 and 128
  assign \<open>next_page\<close> from the page's \<open>Next\<close> control. An exception leaves the function
  with the state it was raised in.
\<close>

function scrape_loop ::
  "site \<Rightarrow> timestamp \<Rightarrow> timestamp \<Rightarrow> scrape_state \<Rightarrow> (py_error \<times> scrape_state) + scrape_state" where
  "scrape_loop session_get start_date end_date st =
     (case next_page st of
        None \<Rightarrow> Inr st
      | Some u \<Rightarrow>
          if u = [] \<or> \<not> page_count st < 40 then Inr st
          else
            (let st1 = st\<lparr>page_count := page_count st + 1, requested := requested st @ [u]\<rparr> in
             case session_get (page_count st1) u of
               Fetch_Failed \<Rightarrow> Inr st1
             | Page soup \<Rightarrow>
                 (case scan_cards start_date end_date (cards soup) st1 of
                    Inl e \<Rightarrow> Inl (e, st1)
                  | Inr st2 \<Rightarrow>
                      (case next_btn soup of
                         None \<Rightarrow>
                           scrape_loop session_get start_date end_date (st2\<lparr>next_page := None\<rparr>)
                       | Some No_Href \<Rightarrow> Inl (KeyError, st2)
                       | Some (Href v) \<Rightarrow>
                           scrape_loop session_get start_date end_date
                             (st2\<lparr>next_page := Some v\<rparr>)))))"
  by pat_completeness auto

lemma scan_cards_page_count:
  "scan_cards start_date end_date cs st = Inr st' \<Longrightarrow> page_count st' = page_count st"
  by (induction cs arbitrary: st) (auto split: step.splits)

termination scrape_loop
  by (relation "measure (\<lambda>(session_get, start_date, end_date, st). 40 - page_count st)")
     (auto dest!: scan_cards_page_count)

declare scrape_loop.simps [simp del]

definition initial_state :: scrape_state where
  "initial_state = \<lparr>next_page = Some base_url, page_count = 0, rows = [], requested = []\<rparr>"

definition final_state :: "(py_error \<times> scrape_state) + scrape_state \<Rightarrow> scrape_state" where
  "final_state r = (case r of Inl (e, st) \<Rightarrow> st | Inr st \<Rightarrow> st)"

text \<open>
  Lines 131 to 134. The buffer is read back by \<open>pd.read_csv\<close>: a text that it takes
  for a missing value (\<open>read_na\<close>: the empty text that \<open>None\<close> was written as, and the
  markers such as \<open>NA\<close> and \<open>null\<close>) comes back as missing, and \<open>dropna\<close> leaves out
  the rows whose statement is missing. The table is then written to the data file, which
  may fail (\<open>to_csv\<close> gives the exception, or \<open>None\<close> when the file was written), and
  returned. A row of the table is given by the texts of its cells; the column types that
  \<open>pd.read_csv\<close> infers are not modelled.
\<close>

definition read_opt :: "(pystr \<Rightarrow> bool) \<Rightarrow> pystr option \<Rightarrow> pystr option" where
  "read_opt read_na x =
     (case x of None \<Rightarrow> None | Some t \<Rightarrow> if read_na t then None else Some t)"

definition read_back :: "(pystr \<Rightarrow> bool) \<Rightarrow> row \<Rightarrow> row" where
  "read_back read_na r =
     r\<lparr>author := read_opt read_na (author r), source := read_opt read_na (source r),
       label := read_opt read_na (label r)\<rparr>"

definition scrape_politifact ::
  "(pystr \<Rightarrow> bool) \<Rightarrow> (row list \<Rightarrow> py_error option) \<Rightarrow> site \<Rightarrow> timestamp \<Rightarrow> timestamp \<Rightarrow>
     py_error + row list" where
  "scrape_politifact read_na to_csv session_get start_date end_date =
     (case scrape_loop session_get start_date end_date initial_state of
        Inl (e, st) \<Rightarrow> Inl e
      | Inr st \<Rightarrow>
          (let df = filter (\<lambda>r. \<not> read_na (statement r)) (map (read_back read_na) (rows st)) in
           case to_csv df of
             Some e \<Rightarrow> Inl e
           | None \<Rightarrow> Inr df))"

definition scrape_run :: "site \<Rightarrow> timestamp \<Rightarrow> timestamp \<Rightarrow> scrape_state" where
  "scrape_run session_get start_date end_date =
     final_state (scrape_loop session_get start_date end_date initial_state)"

text \<open>
  The page fetched by request \<open>i + 1\<close> of a run that ended in \<open>st\<close> came back and has
  no \<open>Next\<close> control.
\<close>

definition no_next :: "site \<Rightarrow> scrape_state \<Rightarrow> nat \<Rightarrow> bool" where
  "no_next session_get st i =
     (case session_get (Suc i) (requested st ! i) of
        Page p \<Rightarrow> next_btn p = None
      | Fetch_Failed \<Rightarrow> False)"

text \<open>
  What a run from \<open>st\<close> that ends in \<open>st'\<close> keeps: one request per page counted, the
  earlier requests unchanged, at most 40 pages, and no request after a page without a
  \<open>Next\<close> control.
\<close>

definition loop_post :: "site \<Rightarrow> scrape_state \<Rightarrow> scrape_state \<Rightarrow> bool" where
  "loop_post g st st' \<longleftrightarrow>
     page_count st' = length (requested st') \<and> prefix (requested st) (requested st') \<and>
     page_count st \<le> page_count st' \<and>
     page_count st' \<le> max 40 (page_count st) \<and>
     (\<forall>i. page_count st \<le> i \<and> i < page_count st' \<and> no_next g st' i \<longrightarrow> page_count st' = Suc i)"

section \<open>Batch verification: \<open>verify_all\<close>\<close>

text \<open>
  A table is its row count and its columns in order, each a name and the cells of the
  column. Tables are objects: a variable holds a reference, and the heap gives the table
  a reference stands for, so that mutation in place and returning the argument can be
  told apart from building a new table.
\<close>

record dataframe =
  nrows :: nat
  columns :: "(pystr \<times> pyval list) list"

type_synonym ref = nat
type_synonym heap = "ref \<Rightarrow> dataframe"

definition wf_df :: "dataframe \<Rightarrow> bool" where
  "wf_df df \<longleftrightarrow>
     distinct (map fst (columns df)) \<and> list_all (\<lambda>c. length (snd c) = nrows df) (columns df)"

text \<open>
  The callee of the loop is the decorated function (\<open>get_fact_check_result_cached\<close>):
  a call may read and change a state (the cache, the clock, the network), and returns a
  result or raises. The loop is modelled for any such callee.
\<close>

type_synonym 's verifier = "'s \<Rightarrow> pyval \<Rightarrow> (py_error + result) \<times> 's"

text \<open>\<open>row.statement\<close> for the row at position \<open>i\<close>.\<close>

definition row_statement :: "dataframe \<Rightarrow> nat \<Rightarrow> py_error + pyval" where
  "row_statement df i =
     (case map_of (columns df) (lit ''statement'') of
        None \<Rightarrow> Inl AttributeError
      | Some col \<Rightarrow> Inr (col ! i))"

fun verify_rows ::
  "'s verifier \<Rightarrow> dataframe \<Rightarrow> nat list \<Rightarrow> 's \<Rightarrow> result list \<Rightarrow> py_error + (result list \<times> 's)" where
  "verify_rows v df [] s results = Inr (results, s)"
| "verify_rows v df (i # is) s results =
     (case row_statement df i of
        Inl e \<Rightarrow> Inl e
      | Inr x \<Rightarrow>
          (case v s x of
             (Inl e, s') \<Rightarrow> Inl e
           | (Inr res, s') \<Rightarrow> verify_rows v df is s' (results @ [res])))"

text \<open>
  \<open>df[name] = vals\<close>: a column of that name is replaced where it stands, a new name is
  appended as the last column; a list of another length than the table raises.
\<close>

definition setitem :: "dataframe \<Rightarrow> pystr \<Rightarrow> pyval list \<Rightarrow> py_error + dataframe" where
  "setitem df name vals =
     (if length vals \<noteq> nrows df then Inl ValueError
      else if name \<in> set (map fst (columns df)) then
        Inr (df\<lparr>columns := map (\<lambda>c. if fst c = name then (name, vals) else c) (columns df)\<rparr>)
      else Inr (df\<lparr>columns := columns df @ [(name, vals)]\<rparr>))"

definition verify_all ::
  "'s verifier \<Rightarrow> ref \<Rightarrow> 's \<times> heap \<Rightarrow> py_error + (ref \<times> 's \<times> heap)" where
  "verify_all v df sh =
     (case sh of (s, h) \<Rightarrow>
        and_then (verify_rows v (h df) [0..<nrows (h df)] s []) (\<lambda>(results, s').
        and_then (setitem (h df) (lit ''google_verdict'') (map (\<lambda>r. PStr (verdict r)) results)) (\<lambda>d1.
        and_then (setitem d1 (lit ''publisher'') (map publisher results)) (\<lambda>d2.
        and_then (setitem d2 (lit ''google_rating'') (map rating results)) (\<lambda>d3.
        and_then (setitem d3 (lit ''fact_url'') (map url results)) (\<lambda>d4.
          Inr (df, s', h(df := d4))))))))"

text \<open>
  The state in which the call for row \<open>i\<close> is made: the state after the calls for the
  rows before it, in row order.
\<close>

definition state_before :: "'s verifier \<Rightarrow> 's \<Rightarrow> pyval list \<Rightarrow> nat \<Rightarrow> 's" where
  "state_before v s xs i = fold (\<lambda>x t. snd (v t x)) (take i xs) s"

definition result_columns :: "pystr list" where
  "result_columns =
     [lit ''google_verdict'', lit ''publisher'', lit ''google_rating'', lit ''fact_url'']"

text \<open>The cells of the \<open>statement\<close> column, in row order.\<close>

definition statements :: "dataframe \<Rightarrow> pyval list" where
  "statements df =
     (case map_of (columns df) (lit ''statement'') of Some col \<Rightarrow> col | None \<Rightarrow> [])"

section \<open>Verdict summary: \<open>show_results\<close>\<close>

text \<open>
  Modelled from the spec: the percentage shares of line 159,
  \<open>df["google_verdict"].value_counts(normalize=True).mul(100).round(1)\<close>, are computed by
  three methods of the table library, whose code is not part of the repository. They are
  modelled from the specification's words (count of a value, divided by the number of
  rows, times 100, rounded to one decimal) and the library's documentation. The column is
  the list of its cells as \<open>verify_all\<close> writes them, a verdict text in every row (a
  missing cell, which the library leaves out of the counts, does not occur). The library
  computes in binary floating point and rounds halves to the even neighbour; the model
  computes exactly, in rational numbers, with the same rounding rule. The order of the
  entries (the library sorts them by count) is not modelled: an entry is looked up by its
  verdict.
\<close>










section \<open>Example inputs\<close>

text \<open>
  Concrete sites and tables on which the properties below are evaluated. In the examples
  a timestamp is written as the number \<open>yyyymmdd\<close> of its date, which orders dates as
  the timestamps are ordered.
\<close>

definition page2_url :: pystr where
  "page2_url = lit ''https://www.politifact.com/factchecks/list/?page=2''"

definition item :: "timestamp \<Rightarrow> string \<Rightarrow> card" where
  "item d t = \<lparr>stated = Stated_On d, statement_tag = Some (lit t),
     source_tag = Some (lit ''Speaker''), footer_tag = Footer_By (lit ''Ann Author ''),
     label_img = Some (lit ''False'')\<rparr>"

definition item_row :: "timestamp \<Rightarrow> string \<Rightarrow> row" where
  "item_row d t = \<lparr>author = Some (lit ''Ann Author''), statement = lit t,
     source = Some (lit ''Speaker''), date = d, label = Some (lit ''False'')\<rparr>"

definition two_page_site :: site where
  "two_page_site n u =
     (if n = 1 then
        Page \<lparr>cards = [item 20240110 ''A'', item 20240105 ''B''],
              next_btn = Some (Href page2_url)\<rparr>
      else Page \<lparr>cards = [item 20240103 ''C''], next_btn = None\<rparr>)"

definition early_stop_site :: site where
  "early_stop_site n u =
     (if n = 1 then
        Page \<lparr>cards = [item 20240110 ''A'', item 20231220 ''B'', item 20240105 ''C''],
              next_btn = Some (Href page2_url)\<rparr>
      else Page \<lparr>cards = [item 20240103 ''D''], next_btn = None\<rparr>)"

definition no_by_site :: site where
  "no_by_site n u =
     (if n = 1 then
        Page \<lparr>cards = [(item 20240110 ''A'')\<lparr>footer_tag := Footer_No_By\<rparr>], next_btn = None\<rparr>
      else Fetch_Failed)"

definition no_href_site :: site where
  "no_href_site n u =
     (if n = 1 then Page \<lparr>cards = [item 20240110 ''A''], next_btn = Some No_Href\<rparr>
      else Fetch_Failed)"

definition sky :: pyval where
  "sky = PStr (lit ''The sky is green.'')"

definition true_result :: result where
  "true_result = \<lparr>verdict = lit ''True'', publisher = PStr (lit ''PolitiFact''),
     rating = PStr (lit ''true''), url = PStr (lit ''https://example.org/1'')\<rparr>"

definition scraped_table :: dataframe where
  "scraped_table = \<lparr>nrows = 2, columns = [
     (lit ''author'', [PStr (lit ''Ann Author''), PFloat (lit ''nan'')]),
     (lit ''statement'', [PStr (lit ''The sky is green.''), PStr (lit ''Water is dry.'')]),
     (lit ''source'', [PStr (lit ''Speaker''), PStr (lit ''Speaker'')]),
     (lit ''date'', [PStr (lit ''2024-01-10''), PStr (lit ''2024-01-05'')]),
     (lit ''label'', [PStr (lit ''False''), PStr (lit ''False'')])]\<rparr>"

definition failing_api_verifier :: "nat verifier" where
  "failing_api_verifier n x =
     (get_fact_check_result (Some (lit ''k'')) (\<lambda>s i. [])
        (\<lambda>q. RequestException (lit ''timeout'')) x, Suc n)"

definition keyless_verifier :: "nat verifier" where
  "keyless_verifier n x =
     (get_fact_check_result None (\<lambda>s i. []) (\<lambda>q. RequestException (lit ''timeout'')) x, Suc n)"

definition verified_table :: dataframe where
  "verified_table = \<lparr>nrows = 2, columns = columns scraped_table @ [
     (lit ''google_verdict'', [PStr (lit ''API Error''), PStr (lit ''API Error'')]),
     (lit ''publisher'', [PNone, PNone]),
     (lit ''google_rating'', [PStr (lit ''timeout''), PStr (lit ''timeout'')]),
     (lit ''fact_url'', [PNone, PNone])]\<rparr>"

definition reverified_table :: dataframe where
  "reverified_table = \<lparr>nrows = 2, columns = columns scraped_table @ [
     (lit ''google_verdict'', [PStr (lit ''API Key Missing''), PStr (lit ''API Key Missing'')]),
     (lit ''publisher'', [PNone, PNone]),
     (lit ''google_rating'', [PNone, PNone]),
     (lit ''fact_url'', [PNone, PNone])]\<rparr>"

section \<open>Properties of \<open>clean_text\<close>\<close>

lemma clean_text_str:
  "clean_text (PStr s) = Inr (take 250 (strip (collapse_ws (filter (\<lambda>c. \<not> is_punct c) s))))"
  by (simp add: clean_text_def isinstance_str_def re_sub_def)

lemma clean_text_other: "\<not> isinstance_str v \<Longrightarrow> clean_text v = Inr []"
  by (simp add: clean_text_def)

lemma collapse_ws_single: "single_spaced s \<Longrightarrow> collapse_ws s = s"
proof (induction s rule: single_spaced.induct)
  case 1
  then show ?case by simp
next
  case (2 c)
  then show ?case by simp
next
  case (3 c d s)
  then have ih: "collapse_ws (d # s) = d # s" by simp
  have "collapse_ws (c # d # s) = c # collapse_ws (d # s)"
  proof (cases "isspace c")
    case True
    with 3 have "c = 0x20" "\<not> isspace d" by auto
    then show ?thesis
      using True by (simp del: collapse_ws.simps add: collapse_ws.simps(2)[of _ "d # s"])
  next
    case False
    then show ?thesis
      by (simp del: collapse_ws.simps add: collapse_ws.simps(2)[of _ "d # s"])
  qed
  then show ?case using ih by (simp del: collapse_ws.simps)
qed

lemma strip_id:
  assumes "s \<noteq> [] \<longrightarrow> \<not> isspace (hd s) \<and> \<not> isspace (last s)"
  shows "strip s = s"
proof (cases s)
  case Nil
  then show ?thesis by (simp add: strip_def)
next
  case (Cons c t)
  with assms have h: "\<not> isspace c" and l: "\<not> isspace (last (c # t))" by auto
  have "dropWhile isspace (c # t) = c # t" using h by simp
  moreover have "dropWhile isspace (rev (c # t)) = rev (c # t)"
    using l by (metis dropWhile.simps hd_rev list.exhaust_sel)
  ultimately show ?thesis using Cons by (simp add: strip_def)
qed

lemma collapse_ws_replicate:
  "\<not> isspace a \<Longrightarrow> collapse_ws (replicate n a @ s) = replicate n a @ collapse_ws s"
  by (induction n) auto

text \<open>
  C5. \<open>clean_text\<close> is total: for every value it returns a string and no exception (the
  \<open>isinstance\<close> guard keeps every non-string away from \<open>re.sub\<close>, which would raise
  \<open>TypeError\<close>); for a value that is not a string the result is the empty string; and
  the result is never longer than 250 code points.
\<close>

theorem clean_text_total_bounded:
  "(\<not> isinstance_str v \<longrightarrow> clean_text v = Inr []) \<and>
   (\<exists>s. clean_text w = Inr s \<and> length s \<le> 250)"
  by (cases w) (auto simp: clean_text_str clean_text_other isinstance_str_def)

theorem clean_text_total_bounded_witness:
  "\<not> isinstance_str (PInt 42) \<and> clean_text (PInt 42) = Inr [] \<and> clean_text PNone = Inr [] \<and>
   (\<exists>s. clean_text (PStr (lit ''Is it true?'')) = Inr s \<and> length s \<le> 250)"
  using clean_text_total_bounded [of "PInt 42" "PStr (lit ''Is it true?'')"]
    clean_text_total_bounded [of PNone PNone]
  by (simp add: isinstance_str_def)

text \<open>
  C7. On an already-normalized string, that is a string of at most 250 code points
  with none of the stripped punctuation characters, no whitespace at either end and no
  whitespace other than single spaces, \<open>clean_text\<close> returns the string itself.
\<close>

theorem clean_text_idempotent_on_normalized:
  "normalized s \<Longrightarrow> clean_text (PStr s) = Inr s"
  by (simp add: clean_text_str normalized_def collapse_ws_single strip_id)

theorem clean_text_idempotent_on_normalized_witness:
  "normalized (lit ''the moon landing was staged'') \<and>
   clean_text (PStr (lit ''the moon landing was staged'')) =
     Inr (lit ''the moon landing was staged'')"
proof -
  have n: "normalized (lit ''the moon landing was staged'')"
    by (simp add: normalized_def lit_def is_punct_def isspace_def)
  show ?thesis
    using n clean_text_idempotent_on_normalized [OF n] by simp
qed

text \<open>
  C9. \<open>clean_text\<close> is not idempotent in general. The slice to 250 code points comes
  after the trimming, so for 249 letters \<open>a\<close>, a space and a letter \<open>b\<close> the result
  is the 249 letters and the space: it ends in a space, and cleaning it again returns
  the shorter string of 249 letters.
\<close>

theorem clean_text_not_idempotent:
  "\<exists>s t t'. clean_text (PStr s) = Inr t \<and> t \<noteq> [] \<and> last t = 0x20 \<and>
     clean_text (PStr t) = Inr t' \<and> t' \<noteq> t \<and> length t' < length t"
proof -
  let ?a = "replicate 249 (0x61::nat)"
  have sp: "isspace 0x20" "\<not> isspace 0x61" "\<not> isspace 0x62"
    by (simp_all add: isspace_def)
  have np: "\<not> is_punct 0x20" "\<not> is_punct 0x61" "\<not> is_punct 0x62"
    by (simp_all add: is_punct_def)
  have 1: "clean_text (PStr (?a @ [0x20, 0x62])) = Inr (?a @ [0x20])"
    using sp np by (simp add: clean_text_str collapse_ws_replicate strip_def dropWhile_append3)
  have 2: "clean_text (PStr (?a @ [0x20])) = Inr ?a"
    using sp np by (simp add: clean_text_str collapse_ws_replicate strip_def)
  from 1 2 have "clean_text (PStr (?a @ [0x20, 0x62])) = Inr (?a @ [0x20]) \<and>
      ?a @ [0x20] \<noteq> [] \<and> last (?a @ [0x20]) = 0x20 \<and>
      clean_text (PStr (?a @ [0x20])) = Inr ?a \<and> ?a \<noteq> ?a @ [0x20] \<and>
      length ?a < length (?a @ [0x20])"
    by simp
  then show ?thesis by blast
qed

section \<open>Properties of \<open>get_fact_check_result\<close>\<close>

lemma and_then_simps [simp]:
  "and_then (Inl e) f = Inl e" "and_then (Inr x) f = f x"
  by (simp_all add: and_then_def)

lemma is_str_cases: "isinstance_str v \<Longrightarrow> \<exists>s. v = PStr s"
  by (cases v) (simp_all add: isinstance_str_def)

lemma is_dict_cases: "is_dict v \<Longrightarrow> \<exists>kvs. v = PDict kvs"
  by (cases v) (simp_all add: is_dict_def)

lemma is_list_cases: "is_list v \<Longrightarrow> \<exists>xs. v = PList xs"
  by (cases v) (simp_all add: is_list_def)

lemma wf_review_fields:
  assumes "wf_review r"
  shows "\<exists>s. dict_get r (lit ''textualRating'') (PStr []) = Inr (PStr s) \<and>
             field r (lit ''textualRating'') (PStr []) = PStr s"
    and "\<exists>kvs. dict_get r (lit ''publisher'') (PDict []) = Inr (PDict kvs) \<and>
             field r (lit ''publisher'') (PDict []) = PDict kvs"
    and "dict_get r (lit ''url'') (PStr []) = Inr (field r (lit ''url'') (PStr []))"
proof -
  from assms obtain kvs where r: "r = PDict kvs"
    by (cases r) (simp_all add: wf_review_def)
  from assms r have
    t: "case map_of kvs (lit ''textualRating'') of None \<Rightarrow> True | Some v \<Rightarrow> isinstance_str v"
    and p: "case map_of kvs (lit ''publisher'') of None \<Rightarrow> True | Some p \<Rightarrow> is_dict p"
    by (simp_all add: wf_review_def)
  from t show "\<exists>s. dict_get r (lit ''textualRating'') (PStr []) = Inr (PStr s) \<and>
             field r (lit ''textualRating'') (PStr []) = PStr s"
    by (auto simp: r dict_get_def field_def split: option.splits dest: is_str_cases)
  from p show "\<exists>kvs. dict_get r (lit ''publisher'') (PDict []) = Inr (PDict kvs) \<and>
             field r (lit ''publisher'') (PDict []) = PDict kvs"
    by (auto simp: r dict_get_def field_def split: option.splits dest: is_dict_cases)
  show "dict_get r (lit ''url'') (PStr []) = Inr (field r (lit ''url'') (PStr []))"
    by (simp add: r dict_get_def field_def)
qed

lemma wf_list_field:
  assumes "case d of PDict kvs \<Rightarrow> (case map_of kvs k of None \<Rightarrow> True
             | Some v \<Rightarrow> is_list v \<and> list_all P (elements v)) | _ \<Rightarrow> False"
  shows "and_then (dict_get d k (PList [])) py_iter = Inr (elements (field d k (PList [])))"
    and "list_all P (elements (field d k (PList [])))"
proof -
  from assms obtain kvs where d: "d = PDict kvs" by (cases d) simp_all
  from assms d have
    c: "case map_of kvs k of None \<Rightarrow> True | Some v \<Rightarrow> is_list v \<and> list_all P (elements v)"
    by simp
  from c show "and_then (dict_get d k (PList [])) py_iter = Inr (elements (field d k (PList [])))"
    by (auto simp: d dict_get_def field_def py_iter_def elements_def split: option.splits
        dest: is_list_cases)
  from c show "list_all P (elements (field d k (PList [])))"
    by (auto simp: d field_def elements_def split: option.splits)
qed

lemma dict_get_PDict: "dict_get (PDict kvs) k d = Inr (field (PDict kvs) k d)"
  by (simp add: dict_get_def field_def)

lemma check_review_wf:
  assumes "wf_review r"
  shows "check_review ul r = Inr (if review_matches ul r then Some (answer ul r) else None)"
proof -
  from wf_review_fields(1)[OF assms] obtain s where
    s: "dict_get r (lit ''textualRating'') (PStr []) = Inr (PStr s)"
       "field r (lit ''textualRating'') (PStr []) = PStr s" by blast
  from wf_review_fields(2)[OF assms] obtain kvs where
    p: "dict_get r (lit ''publisher'') (PDict []) = Inr (PDict kvs)"
       "field r (lit ''publisher'') (PDict []) = PDict kvs" by blast
  note u = wf_review_fields(3)[OF assms]
  show ?thesis
    by (simp add: check_review_def s p u lower_def dict_get_PDict review_matches_def
        answer_def rating_of_def publisher_of_def)
qed


lemma find_append:
  "find P (xs @ ys) = (case find P xs of None \<Rightarrow> find P ys | Some x \<Rightarrow> Some x)"
  by (induction xs) simp_all

lemma scan_reviews_wf:
  "list_all wf_review rs \<Longrightarrow>
   scan_reviews ul rs = Inr (map_option (answer ul) (find (review_matches ul) rs))"
  by (induction rs) (simp_all add: check_review_wf)

lemma scan_claims_wf:
  "list_all wf_claim cs \<Longrightarrow>
   scan_claims ul cs = Inr (map_option (answer ul) (find (review_matches ul)
      (concat (map (\<lambda>c. elements (field c (lit ''claimReview'') (PList []))) cs))))"
proof (induction cs)
  case Nil
  then show ?case by simp
next
  case (Cons c cs)
  let ?rs = "elements (field c (lit ''claimReview'') (PList []))"
  from Cons.prems have wc: "wf_claim c" and wcs: "list_all wf_claim cs" by simp_all
  note ih = Cons.IH[OF wcs]
  from wc have w: "case c of PDict kvs \<Rightarrow> (case map_of kvs (lit ''claimReview'') of None \<Rightarrow> True
             | Some v \<Rightarrow> is_list v \<and> list_all wf_review (elements v)) | _ \<Rightarrow> False"
    by (simp add: wf_claim_def)
  note g = wf_list_field(1)[OF w] and wr = wf_list_field(2)[OF w]
  have "scan_claims ul (c # cs) =
      and_then (and_then (dict_get c (lit ''claimReview'') (PList [])) py_iter) (\<lambda>reviews.
        and_then (scan_reviews ul reviews) (\<lambda>r.
          case r of Some res \<Rightarrow> Inr (Some res) | None \<Rightarrow> scan_claims ul cs))"
    by (cases "dict_get c (lit ''claimReview'') (PList [])") simp_all
  also have "\<dots> = (case find (review_matches ul) ?rs of
        Some r \<Rightarrow> Inr (Some (answer ul r)) | None \<Rightarrow> scan_claims ul cs)"
    by (simp add: g scan_reviews_wf[OF wr] split: option.splits)
  finally show ?case
    by (simp add: ih find_append split: option.splits)
qed

lemma first_match_general:
  assumes "\<not> key_missing k" "clean_text stmt = Inr q" "q \<noteq> []"
    "api q = Json body" "wf_response body"
  shows "get_fact_check_result k ul api stmt = Inr (first_match_spec ul body)"
proof -
  let ?cs = "elements (field body (lit ''claims'') (PList []))"
  from assms(5) have w: "case body of PDict kvs \<Rightarrow> (case map_of kvs (lit ''claims'') of None \<Rightarrow> True
             | Some v \<Rightarrow> is_list v \<and> list_all wf_claim (elements v)) | _ \<Rightarrow> False"
    by (simp add: wf_response_def)
  note g = wf_list_field(1)[OF w] and wc = wf_list_field(2)[OF w]
  have "get_fact_check_result k ul api stmt =
      and_then (and_then (dict_get body (lit ''claims'') (PList [])) py_iter) (\<lambda>claims.
        and_then (scan_claims ul claims) (\<lambda>r. case r of Some res \<Rightarrow> Inr res
          | None \<Rightarrow> Inr \<lparr>verdict = lit ''Unverified'', publisher = PNone,
                            rating = PNone, url = PNone\<rparr>))"
    using assms(1-4)
    by (cases "dict_get body (lit ''claims'') (PList [])") (simp_all add: get_fact_check_result_def)
  also have "\<dots> = Inr (first_match_spec ul body)"
    by (simp add: g scan_claims_wf[OF wc] first_match_spec_def all_reviews_def split: option.splits)
  finally show ?thesis .
qed

lemma lower_str_ascii:
  assumes "\<forall>c \<in> set s. c < 0x80"
  shows "lower_str ul s = map ascii_lower s"
proof -
  have "map (\<lambda>i. if s ! i < 0x80 then [ascii_lower (s ! i)] else ul s i) [0..<length s]
      = map (\<lambda>i. [ascii_lower (s ! i)]) [0..<length s]"
    using assms by (intro map_cong) auto
  also have "\<dots> = map (\<lambda>c. [ascii_lower c]) (map ((!) s) [0..<length s])" by simp
  also have "\<dots> = map (\<lambda>c. [ascii_lower c]) s" by (simp only: map_nth)
  finally show ?thesis by (simp add: lower_str_def concat_map_singleton)
qed

lemmas eval_defs = first_match_spec_def all_reviews_def elements_def field_def
  review_matches_def answer_def rating_of_def publisher_of_def lower_str_ascii ascii_lower_def
  lit_def any_in_def false_keys_def true_keys_def sublist_code(3) prefix_code(2)
  wf_response_def wf_claim_def wf_review_def is_list_def is_dict_def isinstance_str_def

text \<open>
  C1. For a response of the documented shape the result is decided by the first review,
  scanning the claims and the reviews of each claim in the order given, whose lower-cased
  textual rating contains one of \<open>false\<close>, \<open>misleading\<close>, \<open>pants\<close> (verdict
  \<open>False\<close>) or else one of \<open>true\<close>, \<open>accurate\<close>, \<open>correct\<close>, \<open>mostly true\<close>
  (verdict \<open>True\<close>), with that review's publisher and url; when no review matches, the
  verdict is \<open>Unverified\<close>. In particular a first review whose rating contains
  \<open>false\<close> gives \<open>False\<close> whatever the later reviews say, and the loop body
  answers \<open>True\<close> for the rating \<open>Mostly True\<close>, \<open>False\<close> for \<open>Pants on Fire\<close>
  and goes on to the next review for \<open>Unsubstantiated\<close>. The instance after the theorem
  evaluates whole responses with these ratings, and one whose first review is \<open>False\<close>
  and whose later reviews are \<open>True\<close> and \<open>Accurate\<close>.
\<close>

theorem verifier_first_match:
  assumes "\<not> key_missing k" and "clean_text stmt = Inr q" and "q \<noteq> []"
    and "api q = Json body" and "wf_response body"
  shows "get_fact_check_result k ul api stmt = Inr (first_match_spec ul body) \<and>
    (\<forall>r rest. all_reviews body = r # rest \<and> sublist (lit ''false'') (rating_of ul r) \<longrightarrow>
       get_fact_check_result k ul api stmt = Inr (answer ul r) \<and>
       verdict (answer ul r) = lit ''False'') \<and>
    check_review ul (PDict [(lit ''textualRating'', PStr (lit ''Mostly True''))]) =
      Inr (Some \<lparr>verdict = lit ''True'', publisher = PStr (lit ''Unknown''),
                 rating = PStr (lit ''mostly true''), url = PStr []\<rparr>) \<and>
    check_review ul (PDict [(lit ''textualRating'', PStr (lit ''Pants on Fire''))]) =
      Inr (Some \<lparr>verdict = lit ''False'', publisher = PStr (lit ''Unknown''),
                 rating = PStr (lit ''pants on fire''), url = PStr []\<rparr>) \<and>
    check_review ul (PDict [(lit ''textualRating'', PStr (lit ''Unsubstantiated''))]) = Inr None"
proof -
  have 2: "check_review ul (PDict [(lit ''textualRating'', PStr (lit ''Mostly True''))]) =
      Inr (Some \<lparr>verdict = lit ''True'', publisher = PStr (lit ''Unknown''),
                 rating = PStr (lit ''mostly true''), url = PStr []\<rparr>)"
    by (simp add: check_review_def dict_get_def lower_def eval_defs)
  have 3: "check_review ul (PDict [(lit ''textualRating'', PStr (lit ''Pants on Fire''))]) =
      Inr (Some \<lparr>verdict = lit ''False'', publisher = PStr (lit ''Unknown''),
                 rating = PStr (lit ''pants on fire''), url = PStr []\<rparr>)"
    by (simp add: check_review_def dict_get_def lower_def eval_defs)
  have 4: "check_review ul (PDict [(lit ''textualRating'', PStr (lit ''Unsubstantiated''))]) = Inr None"
    by (simp add: check_review_def dict_get_def lower_def eval_defs)
  have 1: "get_fact_check_result k ul api stmt = Inr (first_match_spec ul body)"
    using assms by (rule first_match_general)
  have "first_match_spec ul body = answer ul r \<and> verdict (answer ul r) = lit ''False''"
    if "all_reviews body = r # rest" "sublist (lit ''false'') (rating_of ul r)" for r rest
    using that by (simp add: first_match_spec_def review_matches_def any_in_def false_keys_def answer_def)
  with 1 2 3 4 show ?thesis by simp
qed

theorem verifier_first_match_witness:
  "get_fact_check_result (Some (lit ''k'')) (\<lambda>s i. [])
     (\<lambda>q. Json (PDict [(lit ''claims'', PList [PDict [(lit ''claimReview'',
        PList [PDict [(lit ''textualRating'', PStr (lit ''Mostly True''))]])]])]))
     (PStr (lit ''The sky is green.''))
   = Inr \<lparr>verdict = lit ''True'', publisher = PStr (lit ''Unknown''),
          rating = PStr (lit ''mostly true''), url = PStr []\<rparr> \<and>
   get_fact_check_result (Some (lit ''k'')) (\<lambda>s i. [])
     (\<lambda>q. Json (PDict [(lit ''claims'', PList [PDict [(lit ''claimReview'',
        PList [PDict [(lit ''textualRating'', PStr (lit ''Pants on Fire''))]])]])]))
     (PStr (lit ''The sky is green.''))
   = Inr \<lparr>verdict = lit ''False'', publisher = PStr (lit ''Unknown''),
          rating = PStr (lit ''pants on fire''), url = PStr []\<rparr> \<and>
   get_fact_check_result (Some (lit ''k'')) (\<lambda>s i. [])
     (\<lambda>q. Json (PDict [(lit ''claims'', PList [PDict [(lit ''claimReview'',
        PList [PDict [(lit ''textualRating'', PStr (lit ''Unsubstantiated''))]])]])]))
     (PStr (lit ''The sky is green.''))
   = Inr \<lparr>verdict = lit ''Unverified'', publisher = PNone, rating = PNone, url = PNone\<rparr> \<and>
   get_fact_check_result (Some (lit ''k'')) (\<lambda>s i. [])
     (\<lambda>q. Json (PDict [(lit ''claims'', PList [
        PDict [(lit ''claimReview'', PList [
          PDict [(lit ''publisher'', PDict [(lit ''name'', PStr (lit ''A''))]),
                 (lit ''url'', PStr (lit ''u1'')), (lit ''textualRating'', PStr (lit ''False''))],
          PDict [(lit ''publisher'', PDict [(lit ''name'', PStr (lit ''B''))]),
                 (lit ''url'', PStr (lit ''u2'')), (lit ''textualRating'', PStr (lit ''True''))]])],
        PDict [(lit ''claimReview'', PList [
          PDict [(lit ''textualRating'', PStr (lit ''Accurate''))]])]])]))
     (PStr (lit ''The sky is green.''))
   = Inr \<lparr>verdict = lit ''False'', publisher = PStr (lit ''A''),
          rating = PStr (lit ''false''), url = PStr (lit ''u1'')\<rparr>"
proof -
  let ?k = "Some (lit ''k'')"
  let ?st = "PStr (lit ''The sky is green.'')"
  let ?q = "lit ''The sky is green''"
  have k: "\<not> key_missing ?k" by (simp add: key_missing_def lit_def)
  have q: "clean_text ?st = Inr ?q"
    by (simp add: clean_text_str lit_def is_punct_def isspace_def strip_def)
  have ne: "?q \<noteq> []" by (simp add: lit_def)
  note vfm = verifier_first_match [OF k q ne, THEN conjunct1]
  let ?ul = "\<lambda>(s::pystr) (i::nat). ([]::pystr)"
  let ?b1 = "PDict [(lit ''claims'', PList [PDict [(lit ''claimReview'',
        PList [PDict [(lit ''textualRating'', PStr (lit ''Mostly True''))]])]])]"
  let ?b2 = "PDict [(lit ''claims'', PList [PDict [(lit ''claimReview'',
        PList [PDict [(lit ''textualRating'', PStr (lit ''Pants on Fire''))]])]])]"
  let ?b3 = "PDict [(lit ''claims'', PList [PDict [(lit ''claimReview'',
        PList [PDict [(lit ''textualRating'', PStr (lit ''Unsubstantiated''))]])]])]"
  let ?b4 = "PDict [(lit ''claims'', PList [
        PDict [(lit ''claimReview'', PList [
          PDict [(lit ''publisher'', PDict [(lit ''name'', PStr (lit ''A''))]),
                 (lit ''url'', PStr (lit ''u1'')), (lit ''textualRating'', PStr (lit ''False''))],
          PDict [(lit ''publisher'', PDict [(lit ''name'', PStr (lit ''B''))]),
                 (lit ''url'', PStr (lit ''u2'')), (lit ''textualRating'', PStr (lit ''True''))]])],
        PDict [(lit ''claimReview'', PList [
          PDict [(lit ''textualRating'', PStr (lit ''Accurate''))]])]])]"
  have 1: "get_fact_check_result ?k ?ul (\<lambda>q. Json ?b1) ?st = Inr (first_match_spec ?ul ?b1)"
    by (rule vfm) (simp_all add: eval_defs)
  have 2: "get_fact_check_result ?k ?ul (\<lambda>q. Json ?b2) ?st = Inr (first_match_spec ?ul ?b2)"
    by (rule vfm) (simp_all add: eval_defs)
  have 3: "get_fact_check_result ?k ?ul (\<lambda>q. Json ?b3) ?st = Inr (first_match_spec ?ul ?b3)"
    by (rule vfm) (simp_all add: eval_defs)
  have 4: "get_fact_check_result ?k ?ul (\<lambda>q. Json ?b4) ?st = Inr (first_match_spec ?ul ?b4)"
    by (rule vfm) (simp_all add: eval_defs)
  have "first_match_spec ?ul ?b1 = \<lparr>verdict = lit ''True'', publisher = PStr (lit ''Unknown''),
          rating = PStr (lit ''mostly true''), url = PStr []\<rparr>"
    by (simp add: eval_defs)
  moreover have "first_match_spec ?ul ?b2 = \<lparr>verdict = lit ''False'',
          publisher = PStr (lit ''Unknown''), rating = PStr (lit ''pants on fire''), url = PStr []\<rparr>"
    by (simp add: eval_defs)
  moreover have "first_match_spec ?ul ?b3 =
      \<lparr>verdict = lit ''Unverified'', publisher = PNone, rating = PNone, url = PNone\<rparr>"
    by (simp add: eval_defs)
  moreover have "first_match_spec ?ul ?b4 = \<lparr>verdict = lit ''False'', publisher = PStr (lit ''A''),
          rating = PStr (lit ''false''), url = PStr (lit ''u1'')\<rparr>"
    by (simp add: eval_defs)
  ultimately show ?thesis
    using 1 2 3 4 by simp
qed

lemma body_error_paths:
  "(key_missing k \<longrightarrow>
      get_fact_check_result k ul api stmt =
        Inr \<lparr>verdict = lit ''API Key Missing'', publisher = PNone, rating = PNone, url = PNone\<rparr>) \<and>
   (\<not> key_missing k \<and> clean_text stmt = Inr [] \<longrightarrow>
      get_fact_check_result k ul api stmt =
        Inr \<lparr>verdict = lit ''Unverified'', publisher = PNone, rating = PNone, url = PNone\<rparr>) \<and>
   (\<not> key_missing k \<and> clean_text stmt = Inr q \<and> q \<noteq> [] \<and> api q = RequestException e \<longrightarrow>
      get_fact_check_result k ul api stmt =
        Inr \<lparr>verdict = lit ''API Error'', publisher = PNone, rating = PStr e, url = PNone\<rparr>)"
  by (simp add: get_fact_check_result_def)

lemma cache_data_miss:
  "cache_hit ttl now c x = None \<Longrightarrow> f x = Inr r \<Longrightarrow>
   cache_data ttl f now c x = (Inr r, c(x \<mapsto> (r, now)))"
  by (simp add: cache_data_def)

text \<open>
  C4, as amended. On a call that the cache does not answer (no entry for the statement
  stored less than 24 hours ago) the degraded paths return fixed values and raise nothing:
  without an API key the verdict is \<open>API Key Missing\<close> and the other fields are
  \<open>None\<close>; with a key and an empty cleaned query the verdict is \<open>Unverified\<close> and the
  other fields are \<open>None\<close>; when the request raises a \<open>RequestException\<close> (transport
  failure or error status) the verdict is \<open>API Error\<close>, publisher and url are \<open>None\<close>
  and the rating is the exception's text. A call that the cache answers returns the stored
  result and leaves the cache as it is.
\<close>

theorem verifier_error_paths:
  "(cache_hit CACHE_TTL now c stmt = None \<and> key_missing k \<longrightarrow>
      fst (get_fact_check_result_cached k ul api now c stmt) =
        Inr \<lparr>verdict = lit ''API Key Missing'', publisher = PNone, rating = PNone, url = PNone\<rparr>) \<and>
   (cache_hit CACHE_TTL now c stmt = None \<and> \<not> key_missing k \<and> clean_text stmt = Inr [] \<longrightarrow>
      fst (get_fact_check_result_cached k ul api now c stmt) =
        Inr \<lparr>verdict = lit ''Unverified'', publisher = PNone, rating = PNone, url = PNone\<rparr>) \<and>
   (cache_hit CACHE_TTL now c stmt = None \<and> \<not> key_missing k \<and> clean_text stmt = Inr q \<and>
      q \<noteq> [] \<and> api q = RequestException e \<longrightarrow>
      fst (get_fact_check_result_cached k ul api now c stmt) =
        Inr \<lparr>verdict = lit ''API Error'', publisher = PNone, rating = PStr e, url = PNone\<rparr>) \<and>
   (cache_hit CACHE_TTL now c stmt = Some r \<longrightarrow>
      get_fact_check_result_cached k ul api now c stmt = (Inr r, c))"
  using body_error_paths[of k ul api stmt q e]
  by (auto simp: get_fact_check_result_cached_def cache_data_def)

theorem verifier_error_paths_witness:
  "cache_hit CACHE_TTL 100 Map.empty sky = None \<and>
   fst (get_fact_check_result_cached None (\<lambda>s i. []) (\<lambda>q. Json PNone) 100 Map.empty sky) =
     Inr \<lparr>verdict = lit ''API Key Missing'', publisher = PNone, rating = PNone, url = PNone\<rparr> \<and>
   fst (get_fact_check_result_cached (Some (lit ''k'')) (\<lambda>s i. []) (\<lambda>q. Json PNone) 100 Map.empty
         (PStr (lit '' ?! ''))) =
     Inr \<lparr>verdict = lit ''Unverified'', publisher = PNone, rating = PNone, url = PNone\<rparr> \<and>
   fst (get_fact_check_result_cached (Some (lit ''k'')) (\<lambda>s i. [])
         (\<lambda>q. RequestException (lit ''503 Server Error'')) 100 Map.empty sky) =
     Inr \<lparr>verdict = lit ''API Error'', publisher = PNone, rating = PStr (lit ''503 Server Error''),
          url = PNone\<rparr> \<and>
   cache_hit CACHE_TTL 100 [sky \<mapsto> (true_result, 40)] sky = Some true_result \<and>
   get_fact_check_result_cached None (\<lambda>s i. []) (\<lambda>q. Json PNone) 100 [sky \<mapsto> (true_result, 40)] sky =
     (Inr true_result, [sky \<mapsto> (true_result, 40)])"
proof -
  have m: "cache_hit CACHE_TTL 100 Map.empty x = None" for x
    by (simp add: cache_hit_def)
  have h: "cache_hit CACHE_TTL 100 [sky \<mapsto> (true_result, 40)] sky = Some true_result"
    by (simp add: cache_hit_def CACHE_TTL_def)
  have k0: "key_missing None" and k: "\<not> key_missing (Some (lit ''k''))"
    by (simp_all add: key_missing_def lit_def)
  have q0: "clean_text (PStr (lit '' ?! '')) = Inr []"
    by (simp add: clean_text_str lit_def is_punct_def isspace_def strip_def)
  have q: "clean_text sky = Inr (lit ''The sky is green'')"
    by (simp add: sky_def clean_text_str lit_def is_punct_def isspace_def strip_def)
  have ne: "lit ''The sky is green'' \<noteq> []" by (simp add: lit_def)
  show ?thesis
    using verifier_error_paths [of 100 Map.empty sky None "\<lambda>s i. []" "\<lambda>q. Json PNone" "[]" "[]" true_result]
      verifier_error_paths [of 100 Map.empty "PStr (lit '' ?! '')" "Some (lit ''k'')" "\<lambda>s i. []"
        "\<lambda>q. Json PNone" "[]" "[]" true_result]
      verifier_error_paths [of 100 Map.empty sky "Some (lit ''k'')" "\<lambda>s i. []"
        "\<lambda>q. RequestException (lit ''503 Server Error'')"
        "lit ''The sky is green''" "lit ''503 Server Error''" true_result]
      verifier_error_paths [of 100 "[sky \<mapsto> (true_result, 40)]" sky None "\<lambda>s i. []"
        "\<lambda>q. Json PNone" "[]" "[]" true_result]
      m h k0 k q0 q ne
    by simp
qed

text \<open>
  C4 as stated fails on a call that the cache answers: with no API key configured, a
  statement verified 60 seconds earlier still gets its stored verdict \<open>True\<close>.
\<close>

theorem cached_result_without_key:
  "key_missing None \<and>
   fst (get_fact_check_result_cached None (\<lambda>s i. []) (\<lambda>q. Json PNone) 100
          [sky \<mapsto> (true_result, 40)] sky) = Inr true_result \<and>
   verdict true_result \<noteq> lit ''API Key Missing''"
  by (simp add: get_fact_check_result_cached_def cache_data_def cache_hit_def CACHE_TTL_def
      key_missing_def true_result_def lit_def)

section \<open>Properties of \<open>scrape_politifact\<close>\<close>

lemma scan_cards_requested:
  "scan_cards s e cs st = Inr st' \<Longrightarrow> requested st' = requested st"
  by (induction cs arbitrary: st) (auto split: step.splits)

lemma loop_post_refl: "page_count st = length (requested st) \<Longrightarrow> loop_post g st st"
  by (simp add: loop_post_def)

lemma step_post:
  assumes "page_count st = length (requested st)" and "page_count st < 40"
    and "page_count st2 = Suc (page_count st)" and "requested st2 = requested st @ [u]"
    and "loop_post g st2 st'"
    and "no_next g st' (page_count st) \<longrightarrow> page_count st' = Suc (page_count st)"
  shows "loop_post g st st'"
proof -
  from assms(5) have p: "page_count st' = length (requested st')"
    "prefix (requested st2) (requested st')" "page_count st2 \<le> page_count st'"
    "page_count st' \<le> max 40 (page_count st2)"
    "\<And>i. page_count st2 \<le> i \<Longrightarrow> i < page_count st' \<Longrightarrow> no_next g st' i \<Longrightarrow> page_count st' = Suc i"
    by (simp_all add: loop_post_def)
  have "prefix (requested st) (requested st')"
    using p(2) assms(4) by (metis append_prefixD)
  moreover have "page_count st' = Suc i"
    if "page_count st \<le> i" "i < page_count st'" "no_next g st' i" for i
  proof (cases "i = page_count st")
    case True
    then show ?thesis using that assms(6) by simp
  next
    case False
    then show ?thesis using that p(5)[of i] assms(3) by simp
  qed
  ultimately show ?thesis
    using p(1,3,4) assms(2,3) by (auto simp: loop_post_def)
qed

lemma requested_nth_prefix:
  "prefix (xs @ [u]) ys \<Longrightarrow> ys ! length xs = u"
  by (auto simp: prefix_def)

lemma loop_inv:
  "page_count st = length (requested st) \<Longrightarrow>
   loop_post g st (final_state (scrape_loop g s e st))"
proof (induction g s e st rule: scrape_loop.induct)
  case (1 g s e st)
  note inv = "1.prems"
  show ?case
  proof (cases "next_page st")
    case None
    then show ?thesis using inv
      by (simp add: scrape_loop.simps[of g s e st] final_state_def loop_post_refl)
  next
    case (Some u)
    show ?thesis
    proof (cases "u = [] \<or> \<not> page_count st < 40")
      case True
      then show ?thesis using inv Some
        by (simp add: scrape_loop.simps[of g s e st] final_state_def loop_post_refl)
    next
      case False
      then have lt: "page_count st < 40" by simp
      define st1 where "st1 = st\<lparr>page_count := page_count st + 1, requested := requested st @ [u]\<rparr>"
      have st1: "page_count st1 = Suc (page_count st)" "requested st1 = requested st @ [u]"
        by (simp_all add: st1_def)
      have inv1: "page_count st1 = length (requested st1)" using inv st1 by simp
      have stop: "loop_post g st st'"
        if "page_count st' = Suc (page_count st)" "requested st' = requested st @ [u]" for st'
      proof (rule step_post[OF inv lt that])
        show "loop_post g st' st'" using that inv by (simp add: loop_post_refl)
        show "no_next g st' (page_count st) \<longrightarrow> page_count st' = Suc (page_count st)"
          using that by simp
      qed
      show ?thesis
      proof (cases "g (page_count st1) u")
        case Fetch_Failed
        then have "scrape_loop g s e st = Inr st1"
          using Some False by (simp add: scrape_loop.simps[of g s e st] st1_def Let_def)
        then show ?thesis using stop[of st1] st1 by (simp add: final_state_def)
      next
        case (Page soup)
        show ?thesis
        proof (cases "scan_cards s e (cards soup) st1")
          case (Inl err)
          then have "scrape_loop g s e st = Inl (err, st1)"
            using Some False Page by (simp add: scrape_loop.simps[of g s e st] st1_def Let_def)
          then show ?thesis using stop[of st1] st1 by (simp add: final_state_def)
        next
          case (Inr st2)
          have st2: "page_count st2 = Suc (page_count st)" "requested st2 = requested st @ [u]"
            using scan_cards_page_count[OF Inr] scan_cards_requested[OF Inr] st1 by simp_all
          show ?thesis
          proof (cases "next_btn soup")
            case None
            let ?st3 = "st2\<lparr>next_page := None\<rparr>"
            have "scrape_loop g s e st = scrape_loop g s e ?st3"
              using Some False Page Inr None
              by (simp add: scrape_loop.simps[of g s e st] st1_def Let_def)
            also have "\<dots> = Inr ?st3"
              by (simp add: scrape_loop.simps[of g s e ?st3])
            finally show ?thesis using stop[of ?st3] st2 by (simp add: final_state_def)
          next
            case (Some nb)
            show ?thesis
            proof (cases nb)
              case No_Href
              then have "scrape_loop g s e st = Inl (KeyError, st2)"
                using \<open>next_page st = Some u\<close> False Page Inr Some
                by (simp add: scrape_loop.simps[of g s e st] st1_def Let_def)
              then show ?thesis using stop[of st2] st2 by (simp add: final_state_def)
            next
              case (Href v)
              let ?st3 = "st2\<lparr>next_page := Some v\<rparr>"
              let ?st' = "final_state (scrape_loop g s e ?st3)"
              have eq: "scrape_loop g s e st = scrape_loop g s e ?st3"
                using \<open>next_page st = Some u\<close> False Page Inr Some Href
                by (simp add: scrape_loop.simps[of g s e st] st1_def Let_def)
              have st3: "page_count ?st3 = Suc (page_count st)"
                "requested ?st3 = requested st @ [u]"
                using st2 by simp_all
              have "page_count ?st3 = length (requested ?st3)" using st3 inv by simp
              then have ih: "loop_post g ?st3 ?st'"
                using "1.IH"(2)[OF \<open>next_page st = Some u\<close> False st1_def Page Inr Some Href]
                by simp
              have "prefix (requested st @ [u]) (requested ?st')"
                using ih st3 by (simp add: loop_post_def)
              then have "requested ?st' ! page_count st = u"
                using inv requested_nth_prefix by metis
              then have "\<not> no_next g ?st' (page_count st)"
                using Page Some st1 by (simp add: no_next_def)
              then show ?thesis
                using step_post[OF inv lt st3 ih] eq by simp
            qed
          qed
        qed
      qed
    qed
  qed
qed

lemmas run_defs = scrape_run_def scrape_politifact_def final_state_def scrape_loop.simps
  initial_state_def process_card_def item_def item_row_def strip_def isspace_def
  base_url_def page2_url_def lit_def

text \<open>
  C6. The pagination loop ends (\<open>scrape_loop\<close> is a total function: the page counter
  grows with every iteration and the loop needs it below 40). A run makes one request
  per page counted and at most 40 of them, and it makes no request after a page that
  came back without a \<open>Next\<close> control. The instance after the theorem is a site of
  two pages whose second page has no \<open>Next\<close> link: the run ends after two requests.
\<close>

theorem pagination_bounded:
  "page_count (scrape_run session_get start_date end_date) \<le> 40 \<and>
   page_count (scrape_run session_get start_date end_date) =
     length (requested (scrape_run session_get start_date end_date)) \<and>
   (\<forall>i < page_count (scrape_run session_get start_date end_date).
      no_next session_get (scrape_run session_get start_date end_date) i \<longrightarrow>
      page_count (scrape_run session_get start_date end_date) = Suc i)"
  using loop_inv[of initial_state session_get start_date end_date]
  by (simp add: loop_post_def initial_state_def scrape_run_def)

theorem pagination_bounded_witness:
  "scrape_run two_page_site 20240101 20240131 =
     \<lparr>next_page = None, page_count = 2,
      rows = [item_row 20240110 ''A'', item_row 20240105 ''B'', item_row 20240103 ''C''],
      requested = [base_url, page2_url]\<rparr> \<and>
   1 < page_count (scrape_run two_page_site 20240101 20240131) \<and>
   no_next two_page_site (scrape_run two_page_site 20240101 20240131) 1 \<and>
   page_count (scrape_run two_page_site 20240101 20240131) = 2"
proof -
  let ?st = "scrape_run two_page_site 20240101 20240131"
  have run: "?st = \<lparr>next_page = None, page_count = 2,
      rows = [item_row 20240110 ''A'', item_row 20240105 ''B'', item_row 20240103 ''C''],
      requested = [base_url, page2_url]\<rparr>"
    by (simp add: two_page_site_def run_defs)
  have lt: "1 < page_count ?st" using run by simp
  have nn: "no_next two_page_site ?st 1" using run by (simp add: no_next_def two_page_site_def)
  from pagination_bounded[of two_page_site 20240101 20240131] lt nn
  have "page_count ?st = Suc 1" by blast
  with run lt nn show ?thesis by simp
qed

text \<open>
  C2, where the code departs from it. Page 1 lists items dated 2024-01-10, 2023-12-20 and
  2024-01-05 and has a \<open>Next\<close> link; page 2 lists an item dated 2024-01-03; the range is
  2024-01-01 to 2024-01-31. At the item of 2023-12-20 the loop body assigns
  \<open>next_page = None\<close> and leaves the \<open>for\<close> loop, so the item after it is not
  processed; but the statements after the \<open>for\<close> loop then assign \<open>next_page\<close> from
  the \<open>Next\<close> link, so page 2 is requested and its item is written.
\<close>

theorem early_stop_overwritten:
  "scrape_loop early_stop_site 20240101 20240131 initial_state =
     Inr \<lparr>next_page = None, page_count = 2,
          rows = [item_row 20240110 ''A'', item_row 20240103 ''D''],
          requested = [base_url, page2_url]\<rparr>"
  by (simp add: early_stop_site_def run_defs)

lemma process_card_emit_in_range:
  assumes "process_card s e c = Emit r"
  shows "s \<le> date r \<and> date r \<le> e"
proof (cases "stated c")
  case (Stated_On d)
  show ?thesis
  proof (cases "s \<le> d \<and> d \<le> e")
    case True
    then have nb: "\<not> d < s" by simp
    have "date r = d"
    proof (cases "statement_tag c")
      case None
      with assms Stated_On True nb show ?thesis
        by (cases "footer_tag c") (simp_all add: process_card_def)
    next
      case (Some t)
      with assms Stated_On True nb have "t \<noteq> []"
        by (cases "footer_tag c"; cases "t = []") (simp_all add: process_card_def)
      with assms Stated_On True nb Some show ?thesis
        by (cases "footer_tag c") (auto simp: process_card_def)
    qed
    with True show ?thesis by simp
  next
    case False
    with assms Stated_On show ?thesis
      by (cases "d < s") (simp_all add: process_card_def)
  qed
qed (use assms in \<open>simp_all add: process_card_def\<close>)

lemma scan_cards_in_range:
  "scan_cards s e cs st = Inr st' \<Longrightarrow> \<forall>r \<in> set (rows st). s \<le> date r \<and> date r \<le> e \<Longrightarrow>
   \<forall>r \<in> set (rows st'). s \<le> date r \<and> date r \<le> e"
proof (induction cs arbitrary: st)
  case Nil
  then show ?case by simp
next
  case (Cons c cs)
  note run = Cons.prems(1) and inv = Cons.prems(2)
  show ?case
  proof (cases "process_card s e c")
    case Skip
    with run have "scan_cards s e cs st = Inr st'" by simp
    from Cons.IH[OF this inv] show ?thesis .
  next
    case Break
    with run have "st' = st\<lparr>next_page := None\<rparr>" by simp
    with inv show ?thesis by simp
  next
    case (Emit r)
    with run have sc: "scan_cards s e cs (st\<lparr>rows := rows st @ [r]\<rparr>) = Inr st'" by simp
    have "\<forall>r \<in> set (rows (st\<lparr>rows := rows st @ [r]\<rparr>)). s \<le> date r \<and> date r \<le> e"
      using inv process_card_emit_in_range[OF Emit] by simp
    from Cons.IH[OF sc this] show ?thesis .
  next
    case (Raise x)
    with run show ?thesis by simp
  qed
qed

lemma scrape_loop_invariant:
  assumes "I st"
    and count: "\<And>st u. I st \<Longrightarrow> I (st\<lparr>page_count := page_count st + 1, requested := requested st @ [u]\<rparr>)"
    and scan: "\<And>cs st st'. I st \<Longrightarrow> scan_cards s e cs st = Inr st' \<Longrightarrow> I st'"
    and nextp: "\<And>st np. I st \<Longrightarrow> I (st\<lparr>next_page := np\<rparr>)"
  shows "I (final_state (scrape_loop g s e st))"
  using assms
proof (induction g s e st rule: scrape_loop.induct)
  case (1 g s e st)
  note inv = "1.prems"(1) and count = "1.prems"(2) and scan = "1.prems"(3)
    and nextp = "1.prems"(4)
  show ?case
  proof (cases "next_page st")
    case None
    then have "scrape_loop g s e st = Inr st"
      by (simp add: scrape_loop.simps[of g s e st])
    then show ?thesis using inv by (simp add: final_state_def)
  next
    case (Some u)
    show ?thesis
    proof (cases "u = [] \<or> \<not> page_count st < 40")
      case True
      then have "scrape_loop g s e st = Inr st"
        using Some by (simp add: scrape_loop.simps[of g s e st])
      then show ?thesis using inv by (simp add: final_state_def)
    next
      case False
      define st1 where "st1 = st\<lparr>page_count := page_count st + 1, requested := requested st @ [u]\<rparr>"
      have inv1: "I st1" unfolding st1_def using inv by (rule count)
      show ?thesis
      proof (cases "g (page_count st1) u")
        case Fetch_Failed
        then have "scrape_loop g s e st = Inr st1"
          using Some False by (simp add: scrape_loop.simps[of g s e st] st1_def Let_def)
        then show ?thesis using inv1 by (simp add: final_state_def)
      next
        case (Page soup)
        show ?thesis
        proof (cases "scan_cards s e (cards soup) st1")
          case (Inl err)
          then have "scrape_loop g s e st = Inl (err, st1)"
            using Some False Page by (simp add: scrape_loop.simps[of g s e st] st1_def Let_def)
          then show ?thesis using inv1 by (simp add: final_state_def)
        next
          case (Inr st2)
          have inv2: "I st2" using inv1 Inr by (rule scan)
          show ?thesis
          proof (cases "next_btn soup")
            case None
            have "scrape_loop g s e st = scrape_loop g s e (st2\<lparr>next_page := None\<rparr>)"
              using Some False Page Inr None
              by (simp add: scrape_loop.simps[of g s e st] st1_def Let_def)
            moreover have "I (final_state (scrape_loop g s e (st2\<lparr>next_page := None\<rparr>)))"
              by (rule "1.IH"(1)[OF Some False st1_def Page Inr None nextp[OF inv2] count scan nextp])
            ultimately show ?thesis by simp
          next
            case (Some nl)
            show ?thesis
            proof (cases nl)
              case No_Href
              then have "scrape_loop g s e st = Inl (KeyError, st2)"
                using \<open>next_page st = Some u\<close> False Page Inr Some
                by (simp add: scrape_loop.simps[of g s e st] st1_def Let_def)
              then show ?thesis using inv2 by (simp add: final_state_def)
            next
              case (Href v)
              have "scrape_loop g s e st = scrape_loop g s e (st2\<lparr>next_page := Some v\<rparr>)"
                using \<open>next_page st = Some u\<close> False Page Inr Some Href
                by (simp add: scrape_loop.simps[of g s e st] st1_def Let_def)
              moreover have "I (final_state (scrape_loop g s e (st2\<lparr>next_page := Some v\<rparr>)))"
                by (rule "1.IH"(2)[OF \<open>next_page st = Some u\<close> False st1_def Page Inr Some Href
                      nextp[OF inv2] count scan nextp])
              ultimately show ?thesis by simp
            qed
          qed
        qed
      qed
    qed
  qed
qed

text \<open>
  The part of C2 that the code keeps: every row written, and every row of the table
  returned, has its date within the range from \<open>start_date\<close> to \<open>end_date\<close>, both
  included.
\<close>

theorem rows_in_range:
  "(\<forall>r \<in> set (rows (scrape_run session_get start_date end_date)).
      start_date \<le> date r \<and> date r \<le> end_date) \<and>
   (\<forall>df. scrape_politifact read_na to_csv session_get start_date end_date = Inr df \<longrightarrow>
      (\<forall>r \<in> set df. start_date \<le> date r \<and> date r \<le> end_date))"
proof -
  let ?I = "\<lambda>st. \<forall>r \<in> set (rows st). start_date \<le> date r \<and> date r \<le> end_date"
  have "?I (final_state (scrape_loop session_get start_date end_date initial_state))"
  proof (rule scrape_loop_invariant[where I = ?I])
    show "?I initial_state" by (simp add: initial_state_def)
    show "?I (st\<lparr>page_count := page_count st + 1, requested := requested st @ [u]\<rparr>)"
      if "?I st" for st u using that by simp
    show "?I st'" if "?I st" "scan_cards start_date end_date cs st = Inr st'" for cs st st'
      using scan_cards_in_range[OF that(2) that(1)] .
    show "?I (st\<lparr>next_page := np\<rparr>)" if "?I st" for st np using that by simp
  qed
  then have written: "?I (scrape_run session_get start_date end_date)"
    by (simp add: scrape_run_def)
  have "\<forall>r \<in> set df. start_date \<le> date r \<and> date r \<le> end_date"
    if ret: "scrape_politifact read_na to_csv session_get start_date end_date = Inr df" for df
  proof (cases "scrape_loop session_get start_date end_date initial_state")
    case (Inl a)
    with ret show ?thesis by (simp add: scrape_politifact_def split: prod.splits)
  next
    case (Inr st)
    then have st: "scrape_run session_get start_date end_date = st"
      by (simp add: scrape_run_def final_state_def)
    from ret Inr have "df = filter (\<lambda>r. \<not> read_na (statement r)) (map (read_back read_na) (rows st))"
      by (simp add: scrape_politifact_def Let_def split: option.splits)
    then have "set df \<subseteq> read_back read_na ` set (rows st)" by auto
    moreover have "date (read_back read_na r) = date r" for r
      by (simp add: read_back_def)
    ultimately show ?thesis using written st by auto
  qed
  with written show ?thesis by blast
qed

theorem rows_in_range_witness:
  "rows (scrape_run early_stop_site 20240101 20240131) =
     [item_row 20240110 ''A'', item_row 20240103 ''D''] \<and>
   item_row 20240103 ''D'' \<in> set (rows (scrape_run early_stop_site 20240101 20240131)) \<and>
   20240101 \<le> date (item_row 20240103 ''D'') \<and> date (item_row 20240103 ''D'') \<le> 20240131"
proof -
  have run: "rows (scrape_run early_stop_site 20240101 20240131) =
     [item_row 20240110 ''A'', item_row 20240103 ''D'']"
    by (simp add: early_stop_site_def run_defs)
  then have m: "item_row 20240103 ''D'' \<in> set (rows (scrape_run early_stop_site 20240101 20240131))"
    by simp
  from rows_in_range[of early_stop_site 20240101 20240131, THEN conjunct1] m
  have "20240101 \<le> date (item_row 20240103 ''D'') \<and> date (item_row 20240103 ''D'') \<le> 20240131"
    by blast
  with run m show ?thesis by simp
qed

text \<open>
  C3, where the code departs from it. An item in range whose footer has no \<open>By ...\<close>
  part makes \<open>re.search\<close> return \<open>None\<close>; the call of \<open>group\<close> on it (line 119)
  raises \<open>AttributeError\<close>, which nothing catches: the function raises, whatever
  \<open>pd.read_csv\<close> and the file system would do afterwards.
\<close>

theorem footer_without_by_raises:
  "scrape_politifact read_na to_csv no_by_site 20240101 20240131 = Inl AttributeError"
  by (simp add: no_by_site_def run_defs)

text \<open>
  A second unguarded expression: a \<open>Next\<close> link without \<open>href\<close> makes
  \<open>next_btn["href"]\<close> (line 128) raise \<open>KeyError\<close>.
\<close>

theorem next_without_href_raises:
  "scrape_politifact read_na to_csv no_href_site 20240101 20240131 = Inl KeyError"
  by (simp add: no_href_site_def run_defs)

section \<open>Properties of \<open>verify_all\<close>\<close>

lemma setitem_ok:
  assumes "length vals = nrows df"
  shows "\<exists>df'. setitem df name vals = Inr df' \<and> nrows df' = nrows df \<and>
     map fst (columns df') = map fst (columns df) @ (if name \<in> set (map fst (columns df)) then [] else [name]) \<and>
     map_of (columns df') name = Some vals \<and>
     (\<forall>n. n \<noteq> name \<longrightarrow> map_of (columns df') n = map_of (columns df) n) \<and>
     (wf_df df \<longrightarrow> wf_df df')"
proof (cases "name \<in> set (map fst (columns df))")
  case True
  let ?f = "\<lambda>c. if fst c = name then (name, vals) else c"
  have fst: "fst \<circ> ?f = fst"
    by (auto simp: fun_eq_iff)
  have hit: "name \<in> set (map fst cs) \<Longrightarrow> map_of (map ?f cs) name = Some vals"
    for cs :: "(pystr \<times> pyval list) list"
    by (induction cs) auto
  have other: "n \<noteq> name \<Longrightarrow> map_of (map ?f cs) n = map_of cs n"
    for n and cs :: "(pystr \<times> pyval list) list"
    by (induction cs) auto
  have len: "list_all (\<lambda>c. length (snd c) = nrows df) cs \<Longrightarrow>
      list_all (\<lambda>c. length (snd c) = nrows df) (map ?f cs)"
    for cs :: "(pystr \<times> pyval list) list"
    using assms by (induction cs) auto
  show ?thesis
    using True assms hit[OF True] other len[of "columns df"]
    by (simp add: setitem_def fst wf_df_def)
next
  case False
  then have "map_of (columns df) name = None"
    by (simp add: map_of_eq_None_iff)
  then show ?thesis
    using False assms by (auto simp: setitem_def wf_df_def map_add_def split: option.splits)
qed

lemma state_before_0 [simp]: "state_before v s xs 0 = s"
  by (simp add: state_before_def)

lemma state_before_Suc [simp]:
  "state_before v s (x # xs) (Suc k) = state_before v (snd (v s x)) xs k"
  by (simp add: state_before_def)

lemma verify_rows_results:
  assumes "verify_rows v df is s acc = Inr (res, s')"
    and "map_of (columns df) (lit ''statement'') = Some col"
  shows "\<exists>rs. res = acc @ rs \<and> length rs = length is \<and>
      s' = state_before v s (map ((!) col) is) (length is) \<and>
      (\<forall>k < length is. fst (v (state_before v s (map ((!) col) is) k) (col ! (is ! k))) = Inr (rs ! k))"
  using assms
proof (induction "is" arbitrary: s acc)
  case Nil
  then show ?case by simp
next
  case (Cons i "is")
  from Cons.prems(2) have rs: "row_statement df i = Inr (col ! i)"
    by (simp add: row_statement_def)
  obtain o1 s1 where v: "v s (col ! i) = (o1, s1)" by (cases "v s (col ! i)")
  from Cons.prems(1) rs v obtain r where o1: "o1 = Inr r"
    and rec: "verify_rows v df is s1 (acc @ [r]) = Inr (res, s')"
    by (cases o1) auto
  from Cons.IH[OF rec Cons.prems(2)] obtain rs' where
    rs': "res = (acc @ [r]) @ rs'" "length rs' = length is"
      "s' = state_before v s1 (map ((!) col) is) (length is)"
      "\<forall>k < length is. fst (v (state_before v s1 (map ((!) col) is) k) (col ! (is ! k))) = Inr (rs' ! k)"
    by blast
  have "\<forall>k < length (i # is). fst (v (state_before v s (map ((!) col) (i # is)) k) (col ! ((i # is) ! k))) = Inr ((r # rs') ! k)"
  proof (intro allI impI)
    fix k assume "k < length (i # is)"
    then show "fst (v (state_before v s (map ((!) col) (i # is)) k) (col ! ((i # is) ! k))) = Inr ((r # rs') ! k)"
      using rs'(4) v o1 by (cases k) simp_all
  qed
  then show ?case
    using rs'(1,2,3) v by (intro exI[of _ "r # rs'"]) simp
qed

lemma verify_rows_empty:
  "verify_rows v df [] s acc = Inr (res, s') \<Longrightarrow> res = acc \<and> s' = s"
  by simp

lemma verify_rows_needs_statement:
  "verify_rows v df (i # is) s acc = Inr (res, s') \<Longrightarrow>
   \<exists>col. map_of (columns df) (lit ''statement'') = Some col"
  by (auto simp: row_statement_def split: option.splits)


lemma verify_rows_length:
  "verify_rows v df is s acc = Inr (res, s') \<Longrightarrow> length res = length acc + length is"
proof (induction "is" arbitrary: s acc)
  case Nil
  then show ?case by simp
next
  case (Cons i "is")
  then show ?case
    by (auto split: sum.splits prod.splits)
qed

lemma verify_rows_all:
  assumes "wf_df df" and "verify_rows v df [0..<nrows df] s [] = Inr (results, s')"
  shows "length results = nrows df \<and>
     s' = state_before v s (statements df) (nrows df) \<and>
     (\<forall>i < nrows df. fst (v (state_before v s (statements df) i) (statements df ! i)) = Inr (results ! i))"
proof (cases "nrows df")
  case 0
  with assms(2) show ?thesis by simp
next
  case (Suc m)
  then have "[0..<nrows df] = 0 # [1..<nrows df]" by (simp add: upt_rec)
  with assms(2) obtain col where col: "map_of (columns df) (lit ''statement'') = Some col"
    using verify_rows_needs_statement by metis
  then have "(lit ''statement'', col) \<in> set (columns df)" by (rule map_of_SomeD)
  with assms(1) have len: "length col = nrows df"
    by (auto simp: wf_df_def list_all_iff)
  have m: "map ((!) col) [0..<nrows df] = col"
    using len by (metis map_nth)
  have st: "statements df = col" using col by (simp add: statements_def)
  from verify_rows_results[OF assms(2) col] show ?thesis
    by (auto simp: m st)
qed

lemma result_columns_distinct:
  "lit ''google_verdict'' \<noteq> lit ''publisher''" "lit ''google_verdict'' \<noteq> lit ''google_rating''"
  "lit ''google_verdict'' \<noteq> lit ''fact_url''" "lit ''publisher'' \<noteq> lit ''google_rating''"
  "lit ''publisher'' \<noteq> lit ''fact_url''" "lit ''google_rating'' \<noteq> lit ''fact_url''"
  by (simp_all add: lit_def)

text \<open>
  C10, as amended. When \<open>verify_all\<close> returns, it returns the reference it was given
  and has changed no other object; the table behind the reference keeps its row count,
  every column not named \<open>google_verdict\<close>, \<open>publisher\<close>, \<open>google_rating\<close> or
  \<open>fact_url\<close> is unchanged and stands where it stood, and each of the four holds, for
  row \<open>i\<close>, the field of the result of the call made for the statement of row \<open>i\<close>,
  the calls being made in row order. A column of one of the four names that the table
  already has is overwritten where it stands; the others are appended, in this order.
\<close>

theorem verify_all_frame:
  assumes "wf_df (h df)" and "verify_all v df (s, h) = Inr (ret, s', h')"
  shows "ret = df \<and> (\<forall>r. r \<noteq> df \<longrightarrow> h' r = h r) \<and>
    wf_df (h' df) \<and> nrows (h' df) = nrows (h df) \<and>
    (\<forall>n. n \<notin> set result_columns \<longrightarrow> map_of (columns (h' df)) n = map_of (columns (h df)) n) \<and>
    map fst (columns (h' df)) =
      map fst (columns (h df)) @
      filter (\<lambda>n. n \<notin> set (map fst (columns (h df)))) result_columns \<and>
    (\<exists>results. length results = nrows (h df) \<and>
       (\<forall>i < nrows (h df).
          fst (v (state_before v s (statements (h df)) i) (statements (h df) ! i)) = Inr (results ! i)) \<and>
       s' = state_before v s (statements (h df)) (nrows (h df)) \<and>
       map_of (columns (h' df)) (lit ''google_verdict'') = Some (map (\<lambda>r. PStr (verdict r)) results) \<and>
       map_of (columns (h' df)) (lit ''publisher'') = Some (map publisher results) \<and>
       map_of (columns (h' df)) (lit ''google_rating'') = Some (map rating results) \<and>
       map_of (columns (h' df)) (lit ''fact_url'') = Some (map url results))"
proof -
  let ?d0 = "h df"
  from assms(2) obtain results s1 where
    vr: "verify_rows v ?d0 [0..<nrows ?d0] s [] = Inr (results, s1)"
    by (cases "verify_rows v ?d0 [0..<nrows ?d0] s []") (auto simp: verify_all_def)
  note rows = verify_rows_all[OF assms(1) vr]
  then have len: "length results = nrows ?d0" by simp
  from setitem_ok[of "map (\<lambda>r. PStr (verdict r)) results" ?d0 "lit ''google_verdict''"] len
  obtain d1 where d1: "setitem ?d0 (lit ''google_verdict'') (map (\<lambda>r. PStr (verdict r)) results) = Inr d1"
    "nrows d1 = nrows ?d0"
    "map fst (columns d1) = map fst (columns ?d0) @
       (if lit ''google_verdict'' \<in> set (map fst (columns ?d0)) then [] else [lit ''google_verdict''])"
    "map_of (columns d1) (lit ''google_verdict'') = Some (map (\<lambda>r. PStr (verdict r)) results)"
    "\<And>n. n \<noteq> lit ''google_verdict'' \<Longrightarrow> map_of (columns d1) n = map_of (columns ?d0) n"
    "wf_df d1"
    using assms(1) by auto
  from setitem_ok[of "map publisher results" d1 "lit ''publisher''"] len d1(2)
  obtain d2 where d2: "setitem d1 (lit ''publisher'') (map publisher results) = Inr d2"
    "nrows d2 = nrows d1"
    "map fst (columns d2) = map fst (columns d1) @
       (if lit ''publisher'' \<in> set (map fst (columns d1)) then [] else [lit ''publisher''])"
    "map_of (columns d2) (lit ''publisher'') = Some (map publisher results)"
    "\<And>n. n \<noteq> lit ''publisher'' \<Longrightarrow> map_of (columns d2) n = map_of (columns d1) n"
    "wf_df d2"
    using d1(6) by auto
  from setitem_ok[of "map rating results" d2 "lit ''google_rating''"] len d1(2) d2(2)
  obtain d3 where d3: "setitem d2 (lit ''google_rating'') (map rating results) = Inr d3"
    "nrows d3 = nrows d2"
    "map fst (columns d3) = map fst (columns d2) @
       (if lit ''google_rating'' \<in> set (map fst (columns d2)) then [] else [lit ''google_rating''])"
    "map_of (columns d3) (lit ''google_rating'') = Some (map rating results)"
    "\<And>n. n \<noteq> lit ''google_rating'' \<Longrightarrow> map_of (columns d3) n = map_of (columns d2) n"
    "wf_df d3"
    using d2(6) by auto
  from setitem_ok[of "map url results" d3 "lit ''fact_url''"] len d1(2) d2(2) d3(2)
  obtain d4 where d4: "setitem d3 (lit ''fact_url'') (map url results) = Inr d4"
    "nrows d4 = nrows d3"
    "map fst (columns d4) = map fst (columns d3) @
       (if lit ''fact_url'' \<in> set (map fst (columns d3)) then [] else [lit ''fact_url''])"
    "map_of (columns d4) (lit ''fact_url'') = Some (map url results)"
    "\<And>n. n \<noteq> lit ''fact_url'' \<Longrightarrow> map_of (columns d4) n = map_of (columns d3) n"
    "wf_df d4"
    using d3(6) by auto
  from assms(2) vr d1(1) d2(1) d3(1) d4(1) have ret: "ret = df" and h': "h' = h(df := d4)"
    and s1: "s1 = s'"
    by (auto simp: verify_all_def)
  note ne = result_columns_distinct
  have names: "map fst (columns d4) = map fst (columns ?d0) @
      filter (\<lambda>n. n \<notin> set (map fst (columns ?d0))) result_columns"
    using ne by (simp add: d4(3) d3(3) d2(3) d1(3) result_columns_def)
  have other: "map_of (columns d4) n = map_of (columns ?d0) n" if "n \<notin> set result_columns" for n
    using that by (simp add: result_columns_def d4(5) d3(5) d2(5) d1(5))
  have cols: "map_of (columns d4) (lit ''google_verdict'') = Some (map (\<lambda>r. PStr (verdict r)) results)"
    "map_of (columns d4) (lit ''publisher'') = Some (map publisher results)"
    "map_of (columns d4) (lit ''google_rating'') = Some (map rating results)"
    "map_of (columns d4) (lit ''fact_url'') = Some (map url results)"
    using ne by (simp_all add: d4(4,5) d3(4,5) d2(4,5) d1(4))
  have "\<exists>results. length results = nrows ?d0 \<and>
       (\<forall>i < nrows ?d0.
          fst (v (state_before v s (statements ?d0) i) (statements ?d0 ! i)) = Inr (results ! i)) \<and>
       s' = state_before v s (statements ?d0) (nrows ?d0) \<and>
       map_of (columns d4) (lit ''google_verdict'') = Some (map (\<lambda>r. PStr (verdict r)) results) \<and>
       map_of (columns d4) (lit ''publisher'') = Some (map publisher results) \<and>
       map_of (columns d4) (lit ''google_rating'') = Some (map rating results) \<and>
       map_of (columns d4) (lit ''fact_url'') = Some (map url results)"
    using rows cols s1 by (intro exI[of _ results]) simp
  then show ?thesis
    using ret h' d4(6) d4(2) d3(2) d2(2) d1(2) names other by simp
qed

lemmas table_defs = scraped_table_def verified_table_def reverified_table_def
  failing_api_verifier_def keyless_verifier_def verify_all_def row_statement_def setitem_def
  get_fact_check_result_def key_missing_def clean_text_str is_punct_def isspace_def strip_def
  lit_def

lemma upt2: "[0..<2] = [0, Suc 0]"
  by (simp add: upt_rec)

theorem verify_all_frame_witness:
  "wf_df scraped_table \<and>
   verify_all failing_api_verifier 7 (0, \<lambda>r. scraped_table) =
     Inr (7, 2, (\<lambda>r. scraped_table)(7 := verified_table)) \<and>
   wf_df verified_table \<and>
   map fst (columns verified_table) = map fst (columns scraped_table) @ result_columns \<and>
   lit ''statement'' \<notin> set result_columns \<and>
   map_of (columns verified_table) (lit ''statement'') =
     map_of (columns scraped_table) (lit ''statement'') \<and>
   fst (failing_api_verifier 1 (statements scraped_table ! 1)) =
     Inr \<lparr>verdict = lit ''API Error'', publisher = PNone, rating = PStr (lit ''timeout''),
          url = PNone\<rparr>"
proof -
  let ?h = "\<lambda>r::ref. scraped_table"
  have wf: "wf_df (?h 7)" by (simp add: table_defs wf_df_def)
  have run: "verify_all failing_api_verifier 7 (0, ?h) =
      Inr (7, 2, ?h(7 := verified_table))"
    by (simp add: table_defs upt2)
  note fr = verify_all_frame[OF wf run]
  from fr have 1: "wf_df verified_table" by simp
  have ns: "lit ''statement'' \<notin> set result_columns"
    by (simp add: result_columns_def lit_def)
  from fr have "\<forall>n. n \<notin> set result_columns \<longrightarrow>
      map_of (columns verified_table) n = map_of (columns scraped_table) n" by simp
  with ns have 2: "map_of (columns verified_table) (lit ''statement'') =
     map_of (columns scraped_table) (lit ''statement'')" by blast
  have 3: "map fst (columns verified_table) = map fst (columns scraped_table) @ result_columns"
    by (simp add: table_defs result_columns_def)
  have 4: "fst (failing_api_verifier 1 (statements scraped_table ! 1)) =
     Inr \<lparr>verdict = lit ''API Error'', publisher = PNone, rating = PStr (lit ''timeout''),
          url = PNone\<rparr>"
    by (simp add: table_defs statements_def)
  from wf run 1 ns 2 3 4 show ?thesis by simp
qed

text \<open>
  C10 as stated fails on a table that already has the four columns, as the table of the
  session has after a first verification: verifying it again adds no column and replaces
  the values of \<open>google_verdict\<close> and \<open>google_rating\<close>.
\<close>

theorem verify_all_overwrites:
  "verify_all keyless_verifier 7 (0, \<lambda>r. verified_table) =
     Inr (7, 2, (\<lambda>r. verified_table)(7 := reverified_table)) \<and>
   map_of (columns reverified_table) (lit ''google_verdict'') \<noteq>
     map_of (columns verified_table) (lit ''google_verdict'') \<and>
   map_of (columns reverified_table) (lit ''google_rating'') \<noteq>
     map_of (columns verified_table) (lit ''google_rating'') \<and>
   length (columns reverified_table) = length (columns verified_table)"
  by (simp add: table_defs upt2)

section \<open>Properties of \<open>show_results\<close>\<close>











end
